theory Spec2Isabelle
  imports Complex_Main "HOL-Library.AList"
begin

section \<open>The plate stability tracker\<close>

text \<open>
  The tracker lives in four scripts of the repository, each with the same three pieces:
  the body of the \<^verbatim>\<open>with lock:\<close> block of \<^verbatim>\<open>detection_loop\<close> (one observation), one
  pass of \<^verbatim>\<open>exit_watcher\<close> (one sweep) and \<^verbatim>\<open>publish_event\<close> (the emitter).
  \<^item> \<^verbatim>\<open>plate_capture_easyocr_livestream.py\<close>: suffix \<open>_live\<close> below;
  \<^item> \<^verbatim>\<open>plate_capture_easyocr_upload.py\<close> (class \<^verbatim>\<open>LPProcessor\<close>; the tracker code of
    \<^verbatim>\<open>app_trial_upload.py\<close> is the same text): suffix \<open>_upload\<close>;
  \<^item> \<^verbatim>\<open>app_trial_livestream.py\<close>: suffix \<open>_trial\<close>.

  Python floats (\<^verbatim>\<open>time.time()\<close>, the detector confidence) are doubles, modelled by the reals
  they denote; comparison and \<^verbatim>\<open>max\<close> of doubles are exact, and the one subtraction of the
  tracker, \<^verbatim>\<open>now_ts - v["last_seen"]\<close>, is rounded as the double subtraction rounds. Python
  ints are \<open>int\<close>, the dictionary \<^verbatim>\<open>plates_seen\<close> is an association list in insertion order with
  unique keys, the sets are HOL sets. Every clock reading and every outcome of an external call
  is an input of the step that makes it.
\<close>

type_synonym plate_id = string

datatype error = ValueError | PublishError | SaveError

subsection \<open>Data\<close>

text \<open>The dictionary stored under a plate text: \<^verbatim>\<open>{"count", "last_seen", "conf", "texts"}\<close>,
  and in the upload variant also \<^verbatim>\<open>"crop"\<close>.\<close>

record candidate =
  count :: int
  last_seen :: real
  conf :: real
  texts :: "plate_id list"

record 'img candidate_crop = candidate +
  crop :: 'img

text \<open>The module globals (livestream) or the fields of \<^verbatim>\<open>LPProcessor\<close> (upload).\<close>

record 'c tracker =
  plates_seen :: "(plate_id \<times> 'c) list"
  confirmed_plates :: "plate_id set"
  recorded_plates :: "plate_id set"

definition init_tracker :: "'c tracker" where
  "init_tracker = \<lparr>plates_seen = [], confirmed_plates = {}, recorded_plates = {}\<rparr>"

record config =
  STABILITY_COUNT :: int
  EXIT_TIMEOUT :: real
  DEBUG_SAVE :: bool
  MQTT_ENABLED :: bool

text \<open>The constants of \<^verbatim>\<open>plate_capture_easyocr_livestream.py\<close> (also the defaults of the
  upload variant) and of \<^verbatim>\<open>app_trial_livestream.py\<close>.\<close>

definition live_config :: config where
  "live_config = \<lparr>STABILITY_COUNT = 5, EXIT_TIMEOUT = 15, DEBUG_SAVE = True, MQTT_ENABLED = True\<rparr>"

definition trial_config :: config where
  "trial_config = \<lparr>STABILITY_COUNT = 3, EXIT_TIMEOUT = 15, DEBUG_SAVE = True, MQTT_ENABLED = True\<rparr>"

text \<open>The payload handed to the transport; its \<^verbatim>\<open>timestamp\<close> field (a further clock reading
  formatted by \<^verbatim>\<open>now_iso\<close>) is left out.\<close>

record 'img payload =
  plate :: plate_id
  event :: string
  confidence :: real
  image :: 'img

datatype delivery = Published | FailureLogged | DisabledLogged

text \<open>What one step does besides changing the tracker, in program order: the recogniser call
  (\<^verbatim>\<open>run_ocr\<close>), entering and leaving \<^verbatim>\<open>with lock:\<close>, \<^verbatim>\<open>confirmed_plates.add\<close>, the debug
  image save (file output), the call of \<^verbatim>\<open>publish_event\<close> with its payload and outcome, the
  console lines that the loops themselves print (the save failure in the livestream
  \<^verbatim>\<open>detection_loop\<close>, the \<^verbatim>\<open>[EXIT]\<close> line of \<^verbatim>\<open>LPProcessor._exit_watcher\<close>), the drawing on the
  frame, and \<^verbatim>\<open>time.sleep\<close>. What \<^verbatim>\<open>publish_event\<close> and the save functions print belongs to
  their calls.\<close>

datatype 'img action =
    RunOcr
  | Acquire
  | Release
  | ConfirmedAdd plate_id
  | SaveDebug plate_id
  | Emit "'img payload" "error + delivery"
  | LogSaveFailure
  | LogExit plate_id
  | Draw
  | Sleep

subsection \<open>Majority vote: \<^verbatim>\<open>max(set(texts), key=texts.count)\<close>\<close>

text \<open>Python's \<^verbatim>\<open>max\<close> with a key keeps the first item and replaces it only by an item whose
  key is strictly greater; on an empty iterable it raises \<^verbatim>\<open>ValueError\<close>.\<close>

fun max_from :: "('a \<Rightarrow> int) \<Rightarrow> 'a \<Rightarrow> 'a list \<Rightarrow> 'a" where
  "max_from key best [] = best"
| "max_from key best (x # xs) =
     (if key x > key best then max_from key x xs else max_from key best xs)"

definition py_max :: "'a list \<Rightarrow> ('a \<Rightarrow> int) \<Rightarrow> error + 'a" where
  "py_max xs key = (case xs of [] \<Rightarrow> Inl ValueError | x # rest \<Rightarrow> Inr (max_from key x rest))"

definition py_count :: "'a list \<Rightarrow> 'a \<Rightarrow> int" where
  "py_count xs x = int (count_list xs x)"

text \<open>The order in which a Python set built from a list is iterated depends on the hashes of
  its elements (randomised per process for strings), so it is a parameter \<open>set_iter\<close>. An
  admissible order lists exactly the elements of the list, each once.\<close>

definition set_order :: "('a list \<Rightarrow> 'a list) \<Rightarrow> bool" where
  "set_order set_iter \<longleftrightarrow> (\<forall>xs. set (set_iter xs) = set xs \<and> distinct (set_iter xs))"

definition majority :: "(plate_id list \<Rightarrow> plate_id list) \<Rightarrow> plate_id list \<Rightarrow> error + plate_id" where
  "majority set_iter txts = py_max (set_iter txts) (py_count txts)"

subsection \<open>The emitter: \<^verbatim>\<open>publish_event\<close>\<close>

text \<open>\<open>transport_ok\<close> says whether \<^verbatim>\<open>client.publish\<close> returns normally. The livestream and
  upload variants wrap that call in \<^verbatim>\<open>try/except Exception\<close>; \<^verbatim>\<open>app_trial_livestream.py\<close>
  calls it bare. Building the payload in memory (JPEG, base64, JSON) is taken to succeed.\<close>

definition publish_event :: "config \<Rightarrow> bool \<Rightarrow> error + delivery" where
  "publish_event cfg transport_ok =
     (if MQTT_ENABLED cfg
      then (if transport_ok then Inr Published else Inr FailureLogged)
      else Inr DisabledLogged)"

definition publish_event_trial :: "bool \<Rightarrow> error + delivery" where
  "publish_event_trial transport_ok = (if transport_ok then Inr Published else Inl PublishError)"

definition raised :: "error + 'a \<Rightarrow> error option" where
  "raised r = (case r of Inl e \<Rightarrow> Some e | Inr _ \<Rightarrow> None)"

subsection \<open>One observation: the body of \<^verbatim>\<open>with lock:\<close> in \<^verbatim>\<open>detection_loop\<close>\<close>

text \<open>The result is the tracker after the step, the actions made while the lock is held, and
  the exception that leaves the block, if any. The mutations made before an exception stay.\<close>

definition observe_live ::
  "config \<Rightarrow> (plate_id list \<Rightarrow> plate_id list) \<Rightarrow> bool \<Rightarrow> bool \<Rightarrow>
   plate_id \<Rightarrow> real \<Rightarrow> real \<Rightarrow> 'img \<Rightarrow> candidate tracker \<Rightarrow>
   candidate tracker \<times> 'img action list \<times> error option" where
  "observe_live cfg set_iter save_ok transport_ok plate_text cnf now crp s =
     (let v1 = (case map_of (plates_seen s) plate_text of
                  None \<Rightarrow> \<lparr>count = 1, last_seen = now, conf = cnf, texts = [plate_text]\<rparr>
                | Some v \<Rightarrow> v\<lparr>count := count v + 1, last_seen := now,
                             conf := max (conf v) cnf, texts := texts v @ [plate_text]\<rparr>);
          s1 = s\<lparr>plates_seen := AList.update plate_text v1 (plates_seen s)\<rparr>
      in if count v1 \<ge> STABILITY_COUNT cfg then
           (case majority set_iter (texts v1) of
              Inl e \<Rightarrow> (s1, [], Some e)
            | Inr final_text \<Rightarrow>
                if final_text \<notin> confirmed_plates s1 then
                  (let s2 = s1\<lparr>confirmed_plates := insert final_text (confirmed_plates s1)\<rparr>;
                       saving = (DEBUG_SAVE cfg \<and> final_text \<notin> recorded_plates s2);
                       s3 = (if saving \<and> save_ok
                             then s2\<lparr>recorded_plates := insert final_text (recorded_plates s2)\<rparr>
                             else s2);
                       out = publish_event cfg transport_ok
                   in (s3,
                       [ConfirmedAdd final_text] @
                       (if saving
                        then [SaveDebug final_text] @ (if save_ok then [] else [LogSaveFailure])
                        else []) @
                       [Emit \<lparr>plate = final_text, event = ''entry'', confidence = conf v1, image = crp\<rparr> out],
                       raised out))
                else (s1, [], None))
         else (s1, [], None))"

definition observe_upload ::
  "config \<Rightarrow> (plate_id list \<Rightarrow> plate_id list) \<Rightarrow> bool \<Rightarrow>
   plate_id \<Rightarrow> real \<Rightarrow> real \<Rightarrow> 'img \<Rightarrow> 'img candidate_crop tracker \<Rightarrow>
   'img candidate_crop tracker \<times> 'img action list \<times> error option" where
  "observe_upload cfg set_iter transport_ok plate_text cnf now crp s =
     (let v1 = (case map_of (plates_seen s) plate_text of
                  None \<Rightarrow> \<lparr>count = 1, last_seen = now, conf = cnf, texts = [plate_text], crop = crp\<rparr>
                | Some v \<Rightarrow> v\<lparr>count := count v + 1, last_seen := now,
                             conf := max (conf v) cnf, texts := texts v @ [plate_text],
                             crop := crp\<rparr>);
          s1 = s\<lparr>plates_seen := AList.update plate_text v1 (plates_seen s)\<rparr>
      in if count v1 \<ge> STABILITY_COUNT cfg then
           (case majority set_iter (texts v1) of
              Inl e \<Rightarrow> (s1, [], Some e)
            | Inr final_text \<Rightarrow>
                if final_text \<notin> confirmed_plates s1 then
                  (let s2 = s1\<lparr>confirmed_plates := insert final_text (confirmed_plates s1)\<rparr>;
                       final_conf = conf v1;
                       final_crop = crop v1;
                       out = publish_event cfg transport_ok
                   in (s2,
                       [ConfirmedAdd final_text,
                        Emit \<lparr>plate = final_text, event = ''entry'', confidence = final_conf,
                              image = final_crop\<rparr> out] @
                       (if DEBUG_SAVE cfg then [SaveDebug final_text] else []),
                       raised out))
                else (s1, [], None))
         else (s1, [], None))"

text \<open>\<^verbatim>\<open>app_trial_livestream.py\<close>: the membership test is on \<^verbatim>\<open>plate_text\<close> and joined to the
  threshold test; there is no \<^verbatim>\<open>recorded_plates\<close>, so that field is left as it is.\<close>

definition observe_trial ::
  "config \<Rightarrow> (plate_id list \<Rightarrow> plate_id list) \<Rightarrow> bool \<Rightarrow>
   plate_id \<Rightarrow> real \<Rightarrow> real \<Rightarrow> 'img \<Rightarrow> candidate tracker \<Rightarrow>
   candidate tracker \<times> 'img action list \<times> error option" where
  "observe_trial cfg set_iter transport_ok plate_text cnf now crp s =
     (let v1 = (case map_of (plates_seen s) plate_text of
                  None \<Rightarrow> \<lparr>count = 1, last_seen = now, conf = cnf, texts = [plate_text]\<rparr>
                | Some v \<Rightarrow> v\<lparr>count := count v + 1, last_seen := now,
                             conf := max (conf v) cnf, texts := texts v @ [plate_text]\<rparr>);
          s1 = s\<lparr>plates_seen := AList.update plate_text v1 (plates_seen s)\<rparr>
      in if count v1 \<ge> STABILITY_COUNT cfg \<and> plate_text \<notin> confirmed_plates s1 then
           (case majority set_iter (texts v1) of
              Inl e \<Rightarrow> (s1, [], Some e)
            | Inr final_text \<Rightarrow>
                (let s2 = s1\<lparr>confirmed_plates := insert final_text (confirmed_plates s1)\<rparr>;
                     out = publish_event_trial transport_ok
                 in (s2,
                     [ConfirmedAdd final_text,
                      Emit \<lparr>plate = final_text, event = ''entry'', confidence = conf v1, image = crp\<rparr> out],
                     raised out)))
         else (s1, [], None))"

subsection \<open>Double subtraction\<close>

text \<open>The difference of two doubles is the exact difference rounded to the nearest double, a
  tie going to the even significand: with \<open>k\<close> the binary exponent of the exact result, the
  result is a multiple of \<open>2 ^ (k - 52)\<close>, and of \<open>2 ^ (-1074)\<close> in the subnormal range.
  Overflow to infinity is left out: clock readings are far below \<open>2 ^ 1024\<close>.\<close>

definition round_even :: "real \<Rightarrow> int" where
  "round_even y =
     (let f = \<lfloor>y\<rfloor>
      in if y - of_int f < 1 / 2 then f
         else if y - of_int f > 1 / 2 then f + 1
         else if even f then f else f + 1)"

definition ulp_exp :: "real \<Rightarrow> int" where
  "ulp_exp x = max (\<lfloor>log 2 \<bar>x\<bar>\<rfloor> - 52) (- 1074)"

definition round_double :: "real \<Rightarrow> real" where
  "round_double x =
     (if x = 0 then 0
      else of_int (round_even (x / 2 powi ulp_exp x)) * 2 powi ulp_exp x)"

definition double_sub :: "real \<Rightarrow> real \<Rightarrow> real" where
  "double_sub a b = round_double (a - b)"

text \<open>The reals that are doubles (finite ones, the upper bound of the exponent left out).\<close>

definition representable :: "real \<Rightarrow> bool" where
  "representable x \<longleftrightarrow> (\<exists>m e. \<bar>m\<bar> < 2 ^ 53 \<and> - 1074 \<le> e \<and> x = of_int m * 2 powi e)"

subsection \<open>One sweep: the body of \<^verbatim>\<open>with lock:\<close> in \<^verbatim>\<open>exit_watcher\<close>\<close>

definition expired :: "config \<Rightarrow> real \<Rightarrow> (plate_id \<times> 'a candidate_scheme) list \<Rightarrow> plate_id list" where
  "expired cfg now_ts seen =
     map fst (filter (\<lambda>(p, v). double_sub now_ts (last_seen v) > EXIT_TIMEOUT cfg) seen)"

text \<open>Livestream (and \<^verbatim>\<open>app_trial_livestream.py\<close>): only \<^verbatim>\<open>del plates_seen[pid]\<close>.\<close>

definition exit_watcher_live :: "config \<Rightarrow> real \<Rightarrow> 'a candidate_scheme tracker \<Rightarrow> 'a candidate_scheme tracker" where
  "exit_watcher_live cfg now_ts s =
     fold (\<lambda>pid t. t\<lparr>plates_seen := AList.delete pid (plates_seen t)\<rparr>)
          (expired cfg now_ts (plates_seen s)) s"

text \<open>Upload: a confirmed \<^verbatim>\<open>pid\<close> is first removed from \<^verbatim>\<open>confirmed_plates\<close>.\<close>

definition exit_one_upload :: "plate_id \<Rightarrow> 'c tracker \<Rightarrow> 'c tracker" where
  "exit_one_upload pid t =
     (let t1 = (if pid \<in> confirmed_plates t
                then t\<lparr>confirmed_plates := confirmed_plates t - {pid}\<rparr> else t)
      in t1\<lparr>plates_seen := AList.delete pid (plates_seen t1)\<rparr>)"

definition exit_watcher_upload :: "config \<Rightarrow> real \<Rightarrow> 'a candidate_scheme tracker \<Rightarrow> 'a candidate_scheme tracker" where
  "exit_watcher_upload cfg now_ts s =
     fold exit_one_upload (expired cfg now_ts (plates_seen s)) s"

text \<open>The console lines of that loop: \<^verbatim>\<open>print(f"[EXIT] Plate {pid} timed out.")\<close> for each
  \<^verbatim>\<open>pid\<close> found in \<^verbatim>\<open>confirmed_plates\<close> when its turn comes.\<close>

fun exit_log_upload :: "plate_id list \<Rightarrow> 'c tracker \<Rightarrow> 'img action list" where
  "exit_log_upload [] t = []"
| "exit_log_upload (pid # pids) t =
     (if pid \<in> confirmed_plates t then [LogExit pid] else []) @
     exit_log_upload pids (exit_one_upload pid t)"

subsection \<open>Runs: observations and sweeps interleaved\<close>

text \<open>Both loops take the same lock around their whole body, so a run of the program is a
  sequence of observations and sweeps, each atomic. An observation carries the recognised
  text, the detector confidence, the clock reading, the crop and the outcomes of the debug
  save and of the transport; a sweep carries its clock reading. An exception ends the run,
  as it ends \<^verbatim>\<open>detection_loop\<close>.\<close>

datatype 'img input =
    Observe plate_id real real 'img bool bool
  | Sweep real

fun step_live ::
  "config \<Rightarrow> (plate_id list \<Rightarrow> plate_id list) \<Rightarrow> 'img input \<Rightarrow> candidate tracker \<Rightarrow>
   candidate tracker \<times> 'img action list \<times> error option" where
  "step_live cfg set_iter (Observe plate_text cnf now crp save_ok transport_ok) s =
     observe_live cfg set_iter save_ok transport_ok plate_text cnf now crp s"
| "step_live cfg set_iter (Sweep now_ts) s = (exit_watcher_live cfg now_ts s, [], None)"

fun step_upload ::
  "config \<Rightarrow> (plate_id list \<Rightarrow> plate_id list) \<Rightarrow> 'img input \<Rightarrow> 'img candidate_crop tracker \<Rightarrow>
   'img candidate_crop tracker \<times> 'img action list \<times> error option" where
  "step_upload cfg set_iter (Observe plate_text cnf now crp save_ok transport_ok) s =
     observe_upload cfg set_iter transport_ok plate_text cnf now crp s"
| "step_upload cfg set_iter (Sweep now_ts) s = (exit_watcher_upload cfg now_ts s, [], None)"

text \<open>\<^verbatim>\<open>app_trial_livestream.py\<close> saves the crop before it takes the lock, with no \<^verbatim>\<open>try\<close>
  around it: a failing save ends \<^verbatim>\<open>detection_loop\<close> before the observation is made.\<close>

fun step_trial ::
  "config \<Rightarrow> (plate_id list \<Rightarrow> plate_id list) \<Rightarrow> 'img input \<Rightarrow> candidate tracker \<Rightarrow>
   candidate tracker \<times> 'img action list \<times> error option" where
  "step_trial cfg set_iter (Observe plate_text cnf now crp save_ok transport_ok) s =
     (if DEBUG_SAVE cfg \<and> \<not> save_ok then (s, [], Some SaveError)
      else observe_trial cfg set_iter transport_ok plate_text cnf now crp s)"
| "step_trial cfg set_iter (Sweep now_ts) s = (exit_watcher_live cfg now_ts s, [], None)"

text \<open>The result of a run: the last tracker, the actions that each step made while it held the
  lock, and the exception that ended the run, if any.\<close>

fun run :: "('i \<Rightarrow> 's \<Rightarrow> 's \<times> 'b \<times> error option) \<Rightarrow> 'i list \<Rightarrow> 's \<Rightarrow> 's \<times> 'b list \<times> error option" where
  "run step [] s = (s, [], None)"
| "run step (i # rest) s =
     (case step i s of
        (s', out, Some e) \<Rightarrow> (s', [out], Some e)
      | (s', out, None) \<Rightarrow>
          (case run step rest s' of (s'', outs, r) \<Rightarrow> (s'', out # outs, r)))"

text \<open>The confirmation events among the actions of a step: the payloads handed to the
  emitter.\<close>

fun emitted :: "'img action list \<Rightarrow> 'img payload list" where
  "emitted [] = []"
| "emitted (Emit pl out # acts) = pl # emitted acts"
| "emitted (a # acts) = emitted acts"

text \<open>A run of observations of one text \<open>p\<close>; each observation is given as
  (confidence, clock, crop, save outcome, transport outcome).\<close>

definition observing :: "plate_id \<Rightarrow> (real \<times> real \<times> 'img \<times> bool \<times> bool) list \<Rightarrow> 'img input list" where
  "observing p obs = map (\<lambda>(cnf, now, crp, save_ok, transport_ok). Observe p cnf now crp save_ok transport_ok) obs"

text \<open>The detector confidences that the observations of \<open>p\<close> in a list of inputs carry, in
  order, and the lists that hold observations only.\<close>

fun seen_confs :: "plate_id \<Rightarrow> 'img input list \<Rightarrow> real list" where
  "seen_confs p [] = []"
| "seen_confs p (Observe q cnf now crp save_ok transport_ok # ins) =
     (if q = p then cnf # seen_confs p ins else seen_confs p ins)"
| "seen_confs p (Sweep now_ts # ins) = seen_confs p ins"

fun is_observe :: "'img input \<Rightarrow> bool" where
  "is_observe (Observe q cnf now crp save_ok transport_ok) = True"
| "is_observe (Sweep now_ts) = False"

subsection \<open>Reading the tracker\<close>

definition count_of :: "'a candidate_scheme tracker \<Rightarrow> plate_id \<Rightarrow> int" where
  "count_of s p = (case map_of (plates_seen s) p of None \<Rightarrow> 0 | Some v \<Rightarrow> count v)"

definition conf_of :: "'a candidate_scheme tracker \<Rightarrow> plate_id \<Rightarrow> real option" where
  "conf_of s p = map_option conf (map_of (plates_seen s) p)"

text \<open>The invariant of the reachable trackers: keys are unique; a candidate's count is
  positive and its \<open>texts\<close> are that many copies of its key; a candidate at or above the
  threshold has its key in the confirmed set.\<close>

definition candidate_inv :: "config \<Rightarrow> plate_id set \<Rightarrow> plate_id \<times> 'a candidate_scheme \<Rightarrow> bool" where
  "candidate_inv cfg cs kv =
     (case kv of (k, v) \<Rightarrow>
        1 \<le> count v \<and> texts v = replicate (nat (count v)) k \<and>
        (STABILITY_COUNT cfg \<le> count v \<longrightarrow> k \<in> cs))"

definition tracker_inv :: "config \<Rightarrow> 'a candidate_scheme tracker \<Rightarrow> bool" where
  "tracker_inv cfg s \<longleftrightarrow>
     distinct (map fst (plates_seen s)) \<and>
     list_all (candidate_inv cfg (confirmed_plates s)) (plates_seen s)"

subsection \<open>The lock\<close>

text \<open>One detected box in \<^verbatim>\<open>detection_loop\<close>, from \<^verbatim>\<open>run_ocr\<close> on: the recogniser returns
  \<open>plate_text\<close>, texts shorter than 4 are dropped, the observation is made inside
  \<^verbatim>\<open>with lock:\<close> (which releases the lock also when an exception leaves it), and the box is
  drawn.\<close>

definition box_live ::
  "config \<Rightarrow> (plate_id list \<Rightarrow> plate_id list) \<Rightarrow> bool \<Rightarrow> bool \<Rightarrow>
   plate_id \<Rightarrow> real \<Rightarrow> real \<Rightarrow> 'img \<Rightarrow> candidate tracker \<Rightarrow>
   candidate tracker \<times> 'img action list \<times> error option" where
  "box_live cfg set_iter save_ok transport_ok plate_text cnf now crp s =
     (if length plate_text < 4 then (s, [RunOcr], None)
      else (case observe_live cfg set_iter save_ok transport_ok plate_text cnf now crp s of
              (s', acts, Some e) \<Rightarrow> (s', [RunOcr, Acquire] @ acts @ [Release], Some e)
            | (s', acts, None) \<Rightarrow> (s', [RunOcr, Acquire] @ acts @ [Release, Draw], None)))"

definition box_upload ::
  "config \<Rightarrow> (plate_id list \<Rightarrow> plate_id list) \<Rightarrow> bool \<Rightarrow>
   plate_id \<Rightarrow> real \<Rightarrow> real \<Rightarrow> 'img \<Rightarrow> 'img candidate_crop tracker \<Rightarrow>
   'img candidate_crop tracker \<times> 'img action list \<times> error option" where
  "box_upload cfg set_iter transport_ok plate_text cnf now crp s =
     (if length plate_text < 4 then (s, [RunOcr], None)
      else (case observe_upload cfg set_iter transport_ok plate_text cnf now crp s of
              (s', acts, Some e) \<Rightarrow> (s', [RunOcr, Acquire] @ acts @ [Release], Some e)
            | (s', acts, None) \<Rightarrow> (s', [RunOcr, Acquire] @ acts @ [Release, Draw], None)))"

text \<open>One pass of the \<^verbatim>\<open>while True\<close> loop of \<^verbatim>\<open>exit_watcher\<close>.\<close>

definition watcher_pass_live ::
  "config \<Rightarrow> real \<Rightarrow> 'a candidate_scheme tracker \<Rightarrow> 'a candidate_scheme tracker \<times> 'img action list" where
  "watcher_pass_live cfg now_ts s = (exit_watcher_live cfg now_ts s, [Acquire, Release, Sleep])"

definition watcher_pass_upload ::
  "config \<Rightarrow> real \<Rightarrow> 'a candidate_scheme tracker \<Rightarrow> 'a candidate_scheme tracker \<times> 'img action list" where
  "watcher_pass_upload cfg now_ts s =
     (exit_watcher_upload cfg now_ts s,
      [Acquire] @ exit_log_upload (expired cfg now_ts (plates_seen s)) s @ [Release, Sleep])"

text \<open>The external calls: the recogniser, the file output, the emitter and the console
  output.\<close>

fun external :: "'img action \<Rightarrow> bool" where
  "external RunOcr = True"
| "external (SaveDebug p) = True"
| "external (Emit pl out) = True"
| "external LogSaveFailure = True"
| "external (LogExit p) = True"
| "external a = False"

text \<open>\<open>held_across held acts\<close>: some external call in \<open>acts\<close> is made while the lock is held,
  \<open>held\<close> saying whether it is held at the start.\<close>

fun held_across :: "bool \<Rightarrow> 'img action list \<Rightarrow> bool" where
  "held_across held [] = False"
| "held_across held (Acquire # acts) = held_across True acts"
| "held_across held (Release # acts) = held_across False acts"
| "held_across held (a # acts) = ((held \<and> external a) \<or> held_across held acts)"

section \<open>Properties\<close>

subsection \<open>Rounding\<close>

lemma round_even_of_int: "round_even (of_int n) = n"
  by (simp add: round_even_def)



lemma floor_log2_less:
  assumes "0 < x" and "x < 2 powi n"
  shows "\<lfloor>log 2 x\<rfloor> < n"
proof -
  have "log 2 x < log 2 (2 powi n)"
    using assms by (simp add: log_less_cancel_iff)
  also have "log 2 (2 powi n) = of_int n"
    by (simp flip: powr_real_of_int')
  finally show ?thesis by (simp add: floor_less_iff)
qed



lemma ulp_exp_le:
  assumes "x \<noteq> 0" and "x = of_int m * 2 powi e" and "\<bar>m\<bar> < 2 ^ 53" and "- 1074 \<le> e"
  shows "ulp_exp x \<le> e"
proof -
  have "\<bar>x\<bar> = of_int \<bar>m\<bar> * 2 powi e" by (simp add: assms(2) abs_mult)
  also have "\<dots> < 2 ^ 53 * 2 powi e"
  proof -
    from assms(3) have "(of_int \<bar>m\<bar> :: real) < of_int (2 ^ 53)" by (simp only: of_int_less_iff)
    then show ?thesis by simp
  qed
  also have "\<dots> = 2 powi (53 + e)" by (simp add: power_int_add)
  finally have "\<bar>x\<bar> < 2 powi (53 + e)" .
  moreover from assms(1) have "0 < \<bar>x\<bar>" by simp
  ultimately have "\<lfloor>log 2 \<bar>x\<bar>\<rfloor> < 53 + e" by (rule floor_log2_less[rotated])
  with assms(4) show ?thesis by (simp add: ulp_exp_def)
qed

lemma on_grid:
  assumes "q \<le> e"
  shows "of_int m * 2 powi e = (of_int (m * 2 ^ nat (e - q)) :: real) * 2 powi q"
proof -
  have "(2::real) powi e = 2 powi (int (nat (e - q)) + q)" using assms by simp
  also have "\<dots> = 2 powi int (nat (e - q)) * 2 powi q" by (rule power_int_add) simp
  also have "\<dots> = 2 ^ nat (e - q) * 2 powi q" by (simp only: power_int_of_nat)
  finally show ?thesis by simp
qed

lemma round_double_exact:
  assumes "representable x"
  shows "round_double x = x"
proof (cases "x = 0")
  case True
  then show ?thesis by (simp add: round_double_def)
next
  case False
  from assms obtain m e where me: "\<bar>m\<bar> < 2 ^ 53" "- 1074 \<le> e" "x = of_int m * 2 powi e"
    by (auto simp: representable_def)
  let ?q = "ulp_exp x"
  have "?q \<le> e" by (rule ulp_exp_le[OF False me(3) me(1) me(2)])
  from on_grid[OF this, of m] me(3)
  have x: "x = of_int (m * 2 ^ nat (e - ?q)) * 2 powi ?q" by simp
  have "x / 2 powi ?q = of_int (m * 2 ^ nat (e - ?q))"
    by (subst x) simp
  then have "round_even (x / 2 powi ?q) = m * 2 ^ nat (e - ?q)"
    by (simp only: round_even_of_int)
  with False x show ?thesis by (simp add: round_double_def)
qed


lemma representableI:
  "\<bar>m\<bar> < 2 ^ 53 \<Longrightarrow> - 1074 \<le> e \<Longrightarrow> x = of_int m * 2 powi e \<Longrightarrow> representable x"
  by (auto simp: representable_def)


lemma double_sub_exact:
  assumes "a - b = of_int m * 2 powi e" and "\<bar>m\<bar> < 2 ^ 53" and "- 1074 \<le> e"
  shows "double_sub a b = a - b"
  unfolding double_sub_def
  by (rule round_double_exact) (rule representableI[OF assms(2,3,1)])






subsection \<open>Majority vote\<close>

lemma max_from_mem: "max_from key b xs \<in> insert b (set xs)"
  by (induction xs arbitrary: b) (auto split: if_splits)

lemma max_from_ge: "u \<in> insert b (set xs) \<Longrightarrow> key u \<le> key (max_from key b xs)"
proof (induction xs arbitrary: b u)
  case Nil
  then show ?case by simp
next
  case (Cons x xs)
  have self: "key c \<le> key (max_from key c xs)" for c
    by (rule Cons.IH) simp
  show ?case
  proof (cases "key x > key b")
    case True
    have "key u \<le> key (max_from key x xs)"
    proof (cases "u = b")
      case True
      with \<open>key x > key b\<close> self[of x] show ?thesis by simp
    next
      case False
      with Cons.prems have "u \<in> insert x (set xs)" by auto
      then show ?thesis by (rule Cons.IH)
    qed
    with True show ?thesis by simp
  next
    case False
    have "key u \<le> key (max_from key b xs)"
    proof (cases "u = x")
      case True
      with False self[of b] show ?thesis by simp
    next
      case False
      with Cons.prems have "u \<in> insert b (set xs)" by auto
      then show ?thesis by (rule Cons.IH)
    qed
    with False show ?thesis by simp
  qed
qed

lemma set_order_singleton:
  assumes "set_order it" "set xs = {k}"
  shows "it xs = [k]"
proof -
  from assms have s: "set (it xs) = {k}" and d: "distinct (it xs)"
    by (simp_all add: set_order_def)
  show ?thesis
  proof (cases "it xs")
    case Nil
    with s show ?thesis by simp
  next
    case (Cons y ys)
    with s have y: "y = k" by auto
    have "ys = []"
    proof (cases ys)
      case Nil
      then show ?thesis .
    next
      case (Cons z zs)
      with s \<open>it xs = y # ys\<close> have "z = k" by auto
      with d \<open>it xs = y # ys\<close> Cons y show ?thesis by simp
    qed
    with Cons y show ?thesis by simp
  qed
qed

lemma majority_replicate:
  assumes "set_order it" "0 < n"
  shows "majority it (replicate n k) = Inr k"
  using set_order_singleton[OF assms(1), of "replicate n k" k] assms(2)
  by (simp add: majority_def py_max_def)

subsection \<open>Deleting the expired keys\<close>

lemma map_of_fold_delete:
  "map_of (fold AList.delete ks al) k = (if k \<in> set ks then None else map_of al k)"
  by (induction ks arbitrary: al) (auto simp: AList.delete_conv')

lemma distinct_fold_delete:
  "distinct (map fst al) \<Longrightarrow> distinct (map fst (fold AList.delete ks al))"
  by (induction ks arbitrary: al) (auto simp: AList.distinct_delete)

lemma set_fold_delete: "set (fold AList.delete ks al) \<subseteq> set al"
proof (induction ks arbitrary: al)
  case Nil
  show ?case by simp
next
  case (Cons k ks)
  have "set (fold AList.delete ks (AList.delete k al)) \<subseteq> set (AList.delete k al)"
    by (rule Cons.IH)
  also have "\<dots> \<subseteq> set al" by (auto simp: AList.delete_eq)
  finally show ?case by simp
qed

lemma fold_delete_live:
  "fold (\<lambda>pid t. t\<lparr>plates_seen := AList.delete pid (plates_seen t)\<rparr>) ks s
   = s\<lparr>plates_seen := fold AList.delete ks (plates_seen s)\<rparr>"
  by (induction ks arbitrary: s) auto

lemma fold_exit_one_upload:
  "fold exit_one_upload ks s
   = s\<lparr>plates_seen := fold AList.delete ks (plates_seen s),
       confirmed_plates := confirmed_plates s - set ks\<rparr>"
proof (induction ks arbitrary: s)
  case Nil
  show ?case by simp
next
  case (Cons k ks)
  let ?t = "exit_one_upload k s"
  have step: "fold exit_one_upload (k # ks) s =
      ?t\<lparr>plates_seen := fold AList.delete ks (plates_seen ?t),
         confirmed_plates := confirmed_plates ?t - set ks\<rparr>"
    using Cons.IH[of ?t] by simp
  show ?case
  proof (cases "k \<in> confirmed_plates s")
    case True
    have d: "confirmed_plates s - {k} - set ks = confirmed_plates s - set (k # ks)" by auto
    show ?thesis
      unfolding step d[symmetric] using True by (simp add: exit_one_upload_def)
  next
    case False
    then have d: "confirmed_plates s - set ks = confirmed_plates s - set (k # ks)" by auto
    show ?thesis
      unfolding step d[symmetric] using False by (simp add: exit_one_upload_def)
  qed
qed

subsection \<open>The invariant and the livestream observation\<close>

lemma inv_lookup:
  assumes "tracker_inv cfg s" "map_of (plates_seen s) p = Some v"
  shows "1 \<le> count v" and "texts v = replicate (nat (count v)) p"
    and "STABILITY_COUNT cfg \<le> count v \<Longrightarrow> p \<in> confirmed_plates s"
proof -
  from assms(2) have "(p, v) \<in> set (plates_seen s)" by (rule map_of_SomeD)
  with assms(1) have "candidate_inv cfg (confirmed_plates s) (p, v)"
    by (simp add: tracker_inv_def list_all_iff)
  then show "1 \<le> count v" and "texts v = replicate (nat (count v)) p"
    and "STABILITY_COUNT cfg \<le> count v \<Longrightarrow> p \<in> confirmed_plates s"
    by (simp_all add: candidate_inv_def)
qed

lemma list_all_update:
  "list_all P al \<Longrightarrow> P (k, v) \<Longrightarrow> list_all P (AList.update k v al)"
  by (induction al) auto

lemma candidate_inv_mono:
  "candidate_inv cfg cs kv \<Longrightarrow> cs \<subseteq> cs' \<Longrightarrow> candidate_inv cfg cs' kv"
  by (auto simp: candidate_inv_def)

lemma replicate_bump: "1 \<le> c \<Longrightarrow> replicate (nat c) p @ [p] = replicate (nat (c + 1)) p"
  by (simp add: nat_add_distrib replicate_append_same)

lemma raised_publish_event [simp]: "raised (publish_event cfg tr) = None"
  by (simp add: raised_def publish_event_def)

lemma init_tracker_inv: "tracker_inv cfg init_tracker"
  by (simp add: tracker_inv_def init_tracker_def)

text \<open>Under the invariant the vote returns the observed text, so the step reads as follows.\<close>

lemma observe_live_eq:
  assumes so: "set_order it" and inv: "tracker_inv cfg s"
  shows "observe_live cfg it sv tr p cnf now crp s =
     (let v1 = (case map_of (plates_seen s) p of
                  None \<Rightarrow> \<lparr>count = 1, last_seen = now, conf = cnf, texts = [p]\<rparr>
                | Some v \<Rightarrow> v\<lparr>count := count v + 1, last_seen := now,
                             conf := max (conf v) cnf, texts := texts v @ [p]\<rparr>);
          s1 = s\<lparr>plates_seen := AList.update p v1 (plates_seen s)\<rparr>
      in if STABILITY_COUNT cfg \<le> count v1 \<and> p \<notin> confirmed_plates s then
           (let saving = (DEBUG_SAVE cfg \<and> p \<notin> recorded_plates s)
            in (s1\<lparr>confirmed_plates := insert p (confirmed_plates s),
                   recorded_plates := (if saving \<and> sv then insert p (recorded_plates s) else recorded_plates s)\<rparr>,
                [ConfirmedAdd p] @
                (if saving then [SaveDebug p] @ (if sv then [] else [LogSaveFailure]) else []) @
                [Emit \<lparr>plate = p, event = ''entry'', confidence = conf v1, image = crp\<rparr> (publish_event cfg tr)],
                None))
         else (s1, [], None))"
proof (cases "map_of (plates_seen s) p")
  case None
  have "majority it [p] = Inr p"
    using majority_replicate[OF so, of 1 p] by simp
  with None show ?thesis
    by (simp add: observe_live_def Let_def)
next
  case (Some v)
  have "majority it (texts v @ [p]) = Inr p"
    using inv_lookup(1,2)[OF inv Some] majority_replicate[OF so, of "nat (count v + 1)" p]
    by (simp add: replicate_bump)
  with Some show ?thesis
    by (simp add: observe_live_def Let_def)
qed

lemma observe_live_raised:
  assumes "set_order it" "tracker_inv cfg s"
  shows "snd (snd (observe_live cfg it sv tr p cnf now crp s)) = None"
  by (simp add: observe_live_eq[OF assms] Let_def)

lemma observe_live_seen:
  "plates_seen (fst (observe_live cfg it sv tr p cnf now crp s)) =
     AList.update p (case map_of (plates_seen s) p of
                  None \<Rightarrow> \<lparr>count = 1, last_seen = now, conf = cnf, texts = [p]\<rparr>
                | Some v \<Rightarrow> v\<lparr>count := count v + 1, last_seen := now,
                             conf := max (conf v) cnf, texts := texts v @ [p]\<rparr>) (plates_seen s)"
  by (simp add: observe_live_def Let_def split: sum.split)

lemma observe_live_count:
  "count_of (fst (observe_live cfg it sv tr p cnf now crp s)) q =
     count_of s q + (if q = p then 1 else 0)"
  by (simp add: count_of_def observe_live_seen AList.update_conv' split: option.split)

lemma observe_live_conf:
  "conf_of (fst (observe_live cfg it sv tr p cnf now crp s)) q =
     (if q = p then Some (case conf_of s p of None \<Rightarrow> cnf | Some c \<Rightarrow> max c cnf) else conf_of s q)"
  by (simp add: conf_of_def observe_live_seen AList.update_conv' split: option.split)

lemma observe_live_confirmed:
  assumes "set_order it" "tracker_inv cfg s"
  shows "confirmed_plates (fst (observe_live cfg it sv tr p cnf now crp s)) =
     (if STABILITY_COUNT cfg \<le> count_of s p + 1 then insert p (confirmed_plates s) else confirmed_plates s)"
  by (auto simp add: observe_live_eq[OF assms] Let_def count_of_def split: option.split)

lemma observe_live_emitted:
  assumes "set_order it" "tracker_inv cfg s"
  shows "emitted (fst (snd (observe_live cfg it sv tr p cnf now crp s))) =
     (if STABILITY_COUNT cfg \<le> count_of s p + 1 \<and> p \<notin> confirmed_plates s
      then [\<lparr>plate = p, event = ''entry'',
             confidence = (case conf_of s p of None \<Rightarrow> cnf | Some c \<Rightarrow> max c cnf), image = crp\<rparr>]
      else [])"
  by (simp add: observe_live_eq[OF assms] Let_def count_of_def conf_of_def split: option.split)

lemma observe_live_inv:
  assumes so: "set_order it" and inv: "tracker_inv cfg s"
  shows "tracker_inv cfg (fst (observe_live cfg it sv tr p cnf now crp s))"
proof -
  let ?s' = "fst (observe_live cfg it sv tr p cnf now crp s)"
  let ?v1 = "(case map_of (plates_seen s) p of
                  None \<Rightarrow> \<lparr>count = 1, last_seen = now, conf = cnf, texts = [p]\<rparr>
                | Some v \<Rightarrow> v\<lparr>count := count v + 1, last_seen := now,
                             conf := max (conf v) cnf, texts := texts v @ [p]\<rparr>)"
  have seen: "plates_seen ?s' = AList.update p ?v1 (plates_seen s)" by (rule observe_live_seen)
  have sub: "confirmed_plates s \<subseteq> confirmed_plates ?s'"
    by (auto simp: observe_live_confirmed[OF so inv])
  have d: "distinct (map fst (plates_seen ?s'))"
    using inv by (simp add: seen tracker_inv_def AList.distinct_update)
  have old: "list_all (candidate_inv cfg (confirmed_plates ?s')) (plates_seen s)"
    using inv sub by (auto simp: tracker_inv_def list_all_iff intro: candidate_inv_mono)
  have cnt: "count ?v1 = count_of s p + 1"
    by (simp add: count_of_def split: option.split)
  have new: "candidate_inv cfg (confirmed_plates ?s') (p, ?v1)"
  proof (cases "map_of (plates_seen s) p")
    case None
    then show ?thesis
      using cnt by (simp add: candidate_inv_def observe_live_confirmed[OF so inv])
  next
    case (Some v)
    then show ?thesis
      using cnt inv_lookup(1,2)[OF inv Some]
      by (simp add: candidate_inv_def observe_live_confirmed[OF so inv] replicate_bump)
  qed
  show ?thesis
    unfolding tracker_inv_def seen using d old new
    by (simp add: seen list_all_update)
qed

subsection \<open>The upload observation\<close>

text \<open>The same for the upload variant.\<close>

lemma observe_upload_eq:
  assumes so: "set_order it" and inv: "tracker_inv cfg s"
  shows "observe_upload cfg it tr p cnf now crp s =
     (let v1 = (case map_of (plates_seen s) p of
                  None \<Rightarrow> \<lparr>count = 1, last_seen = now, conf = cnf, texts = [p], crop = crp\<rparr>
                | Some v \<Rightarrow> v\<lparr>count := count v + 1, last_seen := now,
                             conf := max (conf v) cnf, texts := texts v @ [p], crop := crp\<rparr>);
          s1 = s\<lparr>plates_seen := AList.update p v1 (plates_seen s)\<rparr>
      in if STABILITY_COUNT cfg \<le> count v1 \<and> p \<notin> confirmed_plates s then
           (s1\<lparr>confirmed_plates := insert p (confirmed_plates s)\<rparr>,
            [ConfirmedAdd p,
             Emit \<lparr>plate = p, event = ''entry'', confidence = conf v1, image = crp\<rparr> (publish_event cfg tr)] @
            (if DEBUG_SAVE cfg then [SaveDebug p] else []),
            None)
         else (s1, [], None))"
proof (cases "map_of (plates_seen s) p")
  case None
  have "majority it [p] = Inr p"
    using majority_replicate[OF so, of 1 p] by simp
  with None show ?thesis
    by (simp add: observe_upload_def Let_def)
next
  case (Some v)
  have "majority it (texts v @ [p]) = Inr p"
    using inv_lookup(1,2)[OF inv Some] majority_replicate[OF so, of "nat (count v + 1)" p]
    by (simp add: replicate_bump)
  with Some show ?thesis
    by (simp add: observe_upload_def Let_def)
qed

lemma observe_upload_raised:
  assumes "set_order it" "tracker_inv cfg s"
  shows "snd (snd (observe_upload cfg it tr p cnf now crp s)) = None"
  by (simp add: observe_upload_eq[OF assms] Let_def)

lemma observe_upload_seen:
  "plates_seen (fst (observe_upload cfg it tr p cnf now crp s)) =
     AList.update p (case map_of (plates_seen s) p of
                  None \<Rightarrow> \<lparr>count = 1, last_seen = now, conf = cnf, texts = [p], crop = crp\<rparr>
                | Some v \<Rightarrow> v\<lparr>count := count v + 1, last_seen := now,
                             conf := max (conf v) cnf, texts := texts v @ [p], crop := crp\<rparr>) (plates_seen s)"
  by (simp add: observe_upload_def Let_def split: sum.split)

lemma observe_upload_count:
  "count_of (fst (observe_upload cfg it tr p cnf now crp s)) q =
     count_of s q + (if q = p then 1 else 0)"
  by (simp add: count_of_def observe_upload_seen AList.update_conv' split: option.split)

lemma observe_upload_conf:
  "conf_of (fst (observe_upload cfg it tr p cnf now crp s)) q =
     (if q = p then Some (case conf_of s p of None \<Rightarrow> cnf | Some c \<Rightarrow> max c cnf) else conf_of s q)"
  by (simp add: conf_of_def observe_upload_seen AList.update_conv' split: option.split)

lemma observe_upload_confirmed:
  assumes "set_order it" "tracker_inv cfg s"
  shows "confirmed_plates (fst (observe_upload cfg it tr p cnf now crp s)) =
     (if STABILITY_COUNT cfg \<le> count_of s p + 1 then insert p (confirmed_plates s) else confirmed_plates s)"
  by (auto simp add: observe_upload_eq[OF assms] Let_def count_of_def split: option.split)

lemma observe_upload_emitted:
  assumes "set_order it" "tracker_inv cfg s"
  shows "emitted (fst (snd (observe_upload cfg it tr p cnf now crp s))) =
     (if STABILITY_COUNT cfg \<le> count_of s p + 1 \<and> p \<notin> confirmed_plates s
      then [\<lparr>plate = p, event = ''entry'',
             confidence = (case conf_of s p of None \<Rightarrow> cnf | Some c \<Rightarrow> max c cnf), image = crp\<rparr>]
      else [])"
  by (simp add: observe_upload_eq[OF assms] Let_def count_of_def conf_of_def split: option.split)

lemma observe_upload_inv:
  assumes so: "set_order it" and inv: "tracker_inv cfg s"
  shows "tracker_inv cfg (fst (observe_upload cfg it tr p cnf now crp s))"
proof -
  let ?s' = "fst (observe_upload cfg it tr p cnf now crp s)"
  let ?v1 = "(case map_of (plates_seen s) p of
                  None \<Rightarrow> \<lparr>count = 1, last_seen = now, conf = cnf, texts = [p], crop = crp\<rparr>
                | Some v \<Rightarrow> v\<lparr>count := count v + 1, last_seen := now,
                             conf := max (conf v) cnf, texts := texts v @ [p], crop := crp\<rparr>)"
  have seen: "plates_seen ?s' = AList.update p ?v1 (plates_seen s)" by (rule observe_upload_seen)
  have sub: "confirmed_plates s \<subseteq> confirmed_plates ?s'"
    by (auto simp: observe_upload_confirmed[OF so inv])
  have d: "distinct (map fst (plates_seen ?s'))"
    using inv by (simp add: seen tracker_inv_def AList.distinct_update)
  have old: "list_all (candidate_inv cfg (confirmed_plates ?s')) (plates_seen s)"
    using inv sub by (auto simp: tracker_inv_def list_all_iff intro: candidate_inv_mono)
  have cnt: "count ?v1 = count_of s p + 1"
    by (simp add: count_of_def split: option.split)
  have new: "candidate_inv cfg (confirmed_plates ?s') (p, ?v1)"
  proof (cases "map_of (plates_seen s) p")
    case None
    then show ?thesis
      using cnt by (simp add: candidate_inv_def observe_upload_confirmed[OF so inv])
  next
    case (Some v)
    then show ?thesis
      using cnt inv_lookup(1,2)[OF inv Some]
      by (simp add: candidate_inv_def observe_upload_confirmed[OF so inv] replicate_bump)
  qed
  show ?thesis
    unfolding tracker_inv_def seen using d old new
    by (simp add: seen list_all_update)
qed

subsection \<open>The sweeps\<close>

lemma exit_watcher_live_eq:
  "exit_watcher_live cfg now_ts s =
     s\<lparr>plates_seen := fold AList.delete (expired cfg now_ts (plates_seen s)) (plates_seen s)\<rparr>"
  by (simp add: exit_watcher_live_def fold_delete_live)

lemma exit_watcher_upload_eq:
  "exit_watcher_upload cfg now_ts s =
     s\<lparr>plates_seen := fold AList.delete (expired cfg now_ts (plates_seen s)) (plates_seen s),
       confirmed_plates := confirmed_plates s - set (expired cfg now_ts (plates_seen s))\<rparr>"
  by (simp add: exit_watcher_upload_def fold_exit_one_upload)




lemma exit_watcher_live_inv:
  assumes "tracker_inv cfg s"
  shows "tracker_inv cfg (exit_watcher_live cfg now_ts s)"
  using assms set_fold_delete[of "expired cfg now_ts (plates_seen s)" "plates_seen s"]
  by (auto simp: tracker_inv_def exit_watcher_live_eq distinct_fold_delete list_all_iff)

lemma exit_watcher_upload_inv:
  assumes inv: "tracker_inv cfg s"
  shows "tracker_inv cfg (exit_watcher_upload cfg now_ts s)"
proof -
  let ?ks = "expired cfg now_ts (plates_seen s)"
  let ?al = "fold AList.delete ?ks (plates_seen s)"
  have d: "distinct (map fst ?al)"
    using inv by (simp add: tracker_inv_def distinct_fold_delete)
  have "candidate_inv cfg (confirmed_plates s - set ?ks) kv" if kv: "kv \<in> set ?al" for kv
  proof -
    obtain k v where [simp]: "kv = (k, v)" by (cases kv)
    from kv d have m: "map_of ?al k = Some v" by simp
    then have "k \<notin> set ?ks" by (auto simp: map_of_fold_delete split: if_splits)
    moreover from kv set_fold_delete[of ?ks "plates_seen s"] inv
    have "candidate_inv cfg (confirmed_plates s) kv"
      by (auto simp: tracker_inv_def list_all_iff)
    ultimately show ?thesis by (auto simp: candidate_inv_def)
  qed
  with d show ?thesis
    by (simp add: tracker_inv_def exit_watcher_upload_eq list_all_iff)
qed

subsection \<open>Steps and runs\<close>

lemma step_live_inv:
  assumes "set_order it" "tracker_inv cfg s"
  shows "tracker_inv cfg (fst (step_live cfg it i s))"
  using assms by (cases i) (simp_all add: observe_live_inv exit_watcher_live_inv)

lemma step_live_raised:
  assumes "set_order it" "tracker_inv cfg s"
  shows "snd (snd (step_live cfg it i s)) = None"
  using assms by (cases i) (simp_all add: observe_live_raised)

lemma step_upload_inv:
  assumes "set_order it" "tracker_inv cfg s"
  shows "tracker_inv cfg (fst (step_upload cfg it i s))"
  using assms by (cases i) (simp_all add: observe_upload_inv exit_watcher_upload_inv)

lemma step_upload_raised:
  assumes "set_order it" "tracker_inv cfg s"
  shows "snd (snd (step_upload cfg it i s)) = None"
  using assms by (cases i) (simp_all add: observe_upload_raised)

lemma step_live_order:
  assumes "set_order it1" "set_order it2" "tracker_inv cfg s"
  shows "step_live cfg it1 i s = step_live cfg it2 i s"
  using assms by (cases i) (simp_all add: observe_live_eq)

lemma step_upload_order:
  assumes "set_order it1" "set_order it2" "tracker_inv cfg s"
  shows "step_upload cfg it1 i s = step_upload cfg it2 i s"
  using assms by (cases i) (simp_all add: observe_upload_eq)

text \<open>A run whose steps keep an invariant and raise nothing from it makes every step.\<close>

lemma run_Cons_None:
  assumes "snd (snd (step i s)) = None"
  shows "run step (i # rest) s =
     (fst (run step rest (fst (step i s))),
      fst (snd (step i s)) # fst (snd (run step rest (fst (step i s)))),
      snd (snd (run step rest (fst (step i s)))))"
  using assms by (cases "step i s") (auto split: prod.split)

lemma run_invariant:
  assumes keep: "\<And>i s. I s \<Longrightarrow> I (fst (step i s)) \<and> snd (snd (step i s)) = None"
    and "I s"
  shows "I (fst (run step ins s)) \<and> snd (snd (run step ins s)) = None \<and>
         length (fst (snd (run step ins s))) = length ins"
  using \<open>I s\<close>
proof (induction ins arbitrary: s)
  case Nil
  then show ?case by simp
next
  case (Cons i ins)
  from keep[OF Cons.prems, of i] have a: "I (fst (step i s))" and b: "snd (snd (step i s)) = None"
    by simp_all
  show ?case using Cons.IH[OF a] by (simp del: run.simps add: run_Cons_None[of step i s, OF b])
qed

lemma run_order:
  assumes keep: "\<And>i s. I s \<Longrightarrow> I (fst (step1 i s)) \<and> snd (snd (step1 i s)) = None"
    and same: "\<And>i s. I s \<Longrightarrow> step1 i s = step2 i s"
    and "I s"
  shows "run step1 ins s = run step2 ins s"
  using \<open>I s\<close>
proof (induction ins arbitrary: s)
  case Nil
  then show ?case by simp
next
  case (Cons i ins)
  from keep[OF Cons.prems, of i] have a: "I (fst (step1 i s))" and b: "snd (snd (step1 i s)) = None"
    by simp_all
  from b same[OF Cons.prems, of i] have b2: "snd (snd (step2 i s)) = None" by simp
  show ?case
    using Cons.IH[OF a] same[OF Cons.prems, of i]
    by (simp del: run.simps add: run_Cons_None[of step1 i s, OF b] run_Cons_None[of step2 i s, OF b2])
qed

lemma run_live_inv:
  assumes "set_order it" "tracker_inv cfg s"
  shows "tracker_inv cfg (fst (run (step_live cfg it) ins s))"
    and "snd (snd (run (step_live cfg it) ins s)) = None"
    and "length (fst (snd (run (step_live cfg it) ins s))) = length ins"
  using run_invariant[of "tracker_inv cfg" "step_live cfg it" s ins] assms
  by (simp_all add: step_live_inv step_live_raised)

lemma run_upload_inv:
  assumes "set_order it" "tracker_inv cfg s"
  shows "tracker_inv cfg (fst (run (step_upload cfg it) ins s))"
    and "snd (snd (run (step_upload cfg it) ins s)) = None"
    and "length (fst (snd (run (step_upload cfg it) ins s))) = length ins"
  using run_invariant[of "tracker_inv cfg" "step_upload cfg it" s ins] assms
  by (simp_all add: step_upload_inv step_upload_raised)

lemma set_order_remdups: "set_order remdups"
  by (simp add: set_order_def)

lemma set_order_rev_remdups: "set_order (\<lambda>xs. rev (remdups xs))"
  by (simp add: set_order_def)

subsection \<open>The vote returns a most frequent text\<close>

lemma majority_Inr:
  assumes so: "set_order it" and ne: "txts \<noteq> []"
  shows "\<exists>t. majority it txts = Inr t \<and> t \<in> set txts \<and>
          (\<forall>u \<in> set txts. count_list txts u \<le> count_list txts t)"
proof -
  from so have st: "set (it txts) = set txts" by (simp add: set_order_def)
  with ne obtain x rest where it: "it txts = x # rest" by (cases "it txts") auto
  let ?t = "max_from (py_count txts) x rest"
  have m: "majority it txts = Inr ?t" by (simp add: majority_def py_max_def it)
  have "?t \<in> insert x (set rest)" by (rule max_from_mem)
  with st it have mem: "?t \<in> set txts" by simp
  have "count_list txts u \<le> count_list txts ?t" if "u \<in> set txts" for u
  proof -
    from that st it have "u \<in> insert x (set rest)" by simp
    then have "py_count txts u \<le> py_count txts ?t" by (rule max_from_ge)
    then show ?thesis by (simp add: py_count_def)
  qed
  with m mem show ?thesis by blast
qed

lemma majority_example:
  assumes so: "set_order it"
  shows "majority it [''AB12CD'', ''AB12CD'', ''AB12CE''] = Inr ''AB12CD''"
proof -
  let ?txts = "[''AB12CD'', ''AB12CD'', ''AB12CE'']"
  from majority_Inr[OF so, of ?txts] obtain t where
    m: "majority it ?txts = Inr t" and mem: "t \<in> set ?txts"
    and ge: "\<forall>u \<in> set ?txts. count_list ?txts u \<le> count_list ?txts t" by auto
  from ge have "count_list ?txts ''AB12CD'' \<le> count_list ?txts t" by simp
  with mem have "t = ''AB12CD''" by auto
  with m show ?thesis by simp
qed

lemma observe_live_emitted_vote:
  assumes "pl \<in> set (emitted (fst (snd (observe_live cfg it sv tr p cnf now crp s))))"
  shows "\<exists>v. map_of (plates_seen (fst (observe_live cfg it sv tr p cnf now crp s))) p = Some v \<and>
             majority it (texts v) = Inr (plate pl)"
  using assms
  by (auto simp: observe_live_def Let_def AList.update_conv' split: if_splits sum.splits option.splits)


subsection \<open>What a step does to the confirmed set\<close>

lemma observe_live_subset:
  assumes "set_order it" "tracker_inv cfg s"
  shows "confirmed_plates s \<subseteq> confirmed_plates (fst (observe_live cfg it sv tr p cnf now crp s))"
  by (auto simp: observe_live_confirmed[OF assms])

lemma observe_upload_subset:
  assumes "set_order it" "tracker_inv cfg s"
  shows "confirmed_plates s \<subseteq> confirmed_plates (fst (observe_upload cfg it tr p cnf now crp s))"
  by (auto simp: observe_upload_confirmed[OF assms])

lemma exit_watcher_upload_unconfirms:
  assumes "distinct (map fst (plates_seen s))"
    and "p \<in> confirmed_plates s" and "p \<notin> confirmed_plates (exit_watcher_upload cfg now_ts s)"
  shows "map_of (plates_seen (exit_watcher_upload cfg now_ts s)) p = None"
  using assms by (auto simp: exit_watcher_upload_eq map_of_fold_delete)


subsection \<open>Runs of observations of one text\<close>

lemma run_append:
  assumes "snd (snd (run step xs s)) = None"
  shows "run step (xs @ ys) s =
     (fst (run step ys (fst (run step xs s))),
      fst (snd (run step xs s)) @ fst (snd (run step ys (fst (run step xs s)))),
      snd (snd (run step ys (fst (run step xs s)))))"
  using assms
proof (induction xs arbitrary: s)
  case Nil
  show ?case by simp
next
  case (Cons x xs)
  obtain s' out r where st: "step x s = (s', out, r)" by (cases "step x s")
  show ?case
  proof (cases r)
    case None
    with st Cons.prems have "snd (snd (run step xs s')) = None"
      by (simp split: prod.splits)
    from Cons.IH[OF this] st None show ?thesis by (simp split: prod.splits)
  next
    case (Some e)
    with st Cons.prems show ?thesis by simp
  qed
qed

lemma run_nth:
  assumes keep: "\<And>i s. I s \<Longrightarrow> I (fst (step i s)) \<and> snd (snd (step i s)) = None"
    and "I s" and j: "j < length ins"
  shows "fst (snd (run step ins s)) ! j = fst (snd (step (ins ! j) (fst (run step (take j ins) s))))"
proof -
  let ?pre = "take j ins" and ?post = "drop (Suc j) ins"
  let ?sj = "fst (run step ?pre s)"
  have split: "ins = ?pre @ (ins ! j) # ?post" using j by (simp add: id_take_nth_drop)
  from run_invariant[of I step s ?pre, OF keep \<open>I s\<close>] j
  have pre: "I ?sj" "snd (snd (run step ?pre s)) = None" "length (fst (snd (run step ?pre s))) = j"
    by simp_all
  from keep[OF pre(1), of "ins ! j"] have b: "snd (snd (step (ins ! j) ?sj)) = None" by simp
  have "fst (snd (run step (?pre @ (ins ! j) # ?post) s)) ! j =
        fst (snd (run step ((ins ! j) # ?post) ?sj)) ! 0"
    by (simp add: run_append[OF pre(2)] nth_append pre(3))
  also have "\<dots> = fst (snd (step (ins ! j) ?sj))"
    by (simp del: run.simps add: run_Cons_None[of step "ins ! j" ?sj, OF b])
  finally show ?thesis using split by simp
qed

lemma observing_nth:
  "j < length obs \<Longrightarrow> observing p obs ! j =
     (case obs ! j of (cnf, now, crp, save_ok, transport_ok) \<Rightarrow> Observe p cnf now crp save_ok transport_ok)"
  by (simp add: observing_def)

lemma observing_take: "take j (observing p obs) = observing p (take j obs)"
  by (simp add: observing_def take_map)

lemma observing_Cons:
  "observing p ((cnf, now, crp, sv, tr) # obs) = Observe p cnf now crp sv tr # observing p obs"
  by (simp add: observing_def)

lemma run_live_Cons:
  assumes "set_order it" "tracker_inv cfg s"
  shows "fst (run (step_live cfg it) (i # ins) s) = fst (run (step_live cfg it) ins (fst (step_live cfg it i s)))"
  by (simp del: run.simps
      add: run_Cons_None[of "step_live cfg it" i s, OF step_live_raised[OF assms]])

lemma run_observing_live_state:
  assumes so: "set_order it" and inv: "tracker_inv cfg s"
  shows "count_of (fst (run (step_live cfg it) (observing p obs) s)) p = count_of s p + int (length obs)
       \<and> confirmed_plates (fst (run (step_live cfg it) (observing p obs) s)) =
           (if obs \<noteq> [] \<and> STABILITY_COUNT cfg \<le> count_of s p + int (length obs)
            then insert p (confirmed_plates s) else confirmed_plates s)"
  using inv
proof (induction obs arbitrary: s)
  case Nil
  show ?case by simp (simp add: observing_def)
next
  case (Cons x obs)
  obtain cnf now crp sv tr where x: "x = (cnf, now, crp, sv, tr)" by (cases x)
  let ?s' = "fst (observe_live cfg it sv tr p cnf now crp s)"
  have inv': "tracker_inv cfg ?s'" by (rule observe_live_inv[OF so Cons.prems])
  have st: "fst (run (step_live cfg it) (observing p (x # obs)) s) =
            fst (run (step_live cfg it) (observing p obs) ?s')"
    unfolding x observing_Cons by (simp del: run.simps add: run_live_Cons[OF so Cons.prems])
  have c': "count_of ?s' p = count_of s p + 1" by (simp add: observe_live_count)
  note conf' = observe_live_confirmed[OF so Cons.prems, of sv tr p cnf now crp]
  show ?case unfolding st using Cons.IH[OF inv'] c' conf' by auto
qed

lemma run_observing_live_nth:
  assumes so: "set_order it" and inv: "tracker_inv cfg s" and j: "j < length obs"
  shows "fst (snd (run (step_live cfg it) (observing p obs) s)) ! j =
     (case obs ! j of (cnf, now, crp, sv, tr) \<Rightarrow>
        fst (snd (observe_live cfg it sv tr p cnf now crp
          (fst (run (step_live cfg it) (observing p (take j obs)) s)))))"
proof -
  have keep: "\<And>i s. tracker_inv cfg s \<Longrightarrow>
      tracker_inv cfg (fst (step_live cfg it i s)) \<and> snd (snd (step_live cfg it i s)) = None"
    using so by (simp add: step_live_inv step_live_raised)
  from j have j': "j < length (observing p obs)" by (simp add: observing_def)
  obtain cnf now crp sv tr where x: "obs ! j = (cnf, now, crp, sv, tr)" by (cases "obs ! j")
  have "fst (snd (run (step_live cfg it) (observing p obs) s)) ! j =
      fst (snd (step_live cfg it (observing p obs ! j)
        (fst (run (step_live cfg it) (take j (observing p obs)) s))))"
    by (rule run_nth[of "tracker_inv cfg" "step_live cfg it", OF keep inv j'])
  also have "\<dots> = fst (snd (observe_live cfg it sv tr p cnf now crp
          (fst (run (step_live cfg it) (observing p (take j obs)) s))))"
    by (simp add: observing_nth[OF j] observing_take x)
  finally show ?thesis by (simp add: x)
qed

lemma first_reach_iff:
  "(\<forall>i<j. c + int i + 1 < (S::int)) \<longleftrightarrow> (j = 0 \<or> c + int j < S)"
proof (cases j)
  case 0
  then show ?thesis by simp
next
  case (Suc k)
  have "(\<forall>i<Suc k. c + int i + 1 < S) \<longleftrightarrow> c + int k + 1 < S"
  proof
    assume "\<forall>i<Suc k. c + int i + 1 < S"
    then show "c + int k + 1 < S" by simp
  next
    assume a: "c + int k + 1 < S"
    show "\<forall>i<Suc k. c + int i + 1 < S"
    proof (intro allI impI)
      fix i assume "i < Suc k"
      then have "int i \<le> int k" by simp
      with a show "c + int i + 1 < S" by linarith
    qed
  qed
  with Suc show ?thesis by (simp add: algebra_simps)
qed

lemma exit_watcher_live_lookup:
  "map_of (plates_seen (exit_watcher_live cfg now_ts s)) q = None \<or>
   map_of (plates_seen (exit_watcher_live cfg now_ts s)) q = map_of (plates_seen s) q"
  by (simp add: exit_watcher_live_eq map_of_fold_delete)


subsection \<open>The stored confidence along a run\<close>

lemma Max_bump:
  assumes "finite A"
  shows "Max (insert (max c x) A) = Max (insert x A \<union> {c})"
proof (cases "A = {}")
  case True
  then show ?thesis by (simp add: max.commute)
next
  case False
  with assms show ?thesis by (simp add: max.assoc max.commute max.left_commute)
qed

lemma run_observing_live_conf:
  assumes so: "set_order it" and inv: "tracker_inv cfg s"
  shows "conf_of (fst (run (step_live cfg it) (observing p obs) s)) p =
     (if obs = [] then conf_of s p
      else Some (Max (set (map fst obs) \<union> set_option (conf_of s p))))"
  using inv
proof (induction obs arbitrary: s)
  case Nil
  show ?case by (simp add: observing_def)
next
  case (Cons x obs)
  obtain cnf now crp sv tr where x: "x = (cnf, now, crp, sv, tr)" by (cases x)
  let ?s' = "fst (observe_live cfg it sv tr p cnf now crp s)"
  have inv': "tracker_inv cfg ?s'" by (rule observe_live_inv[OF so Cons.prems])
  have st: "fst (run (step_live cfg it) (observing p (x # obs)) s) =
            fst (run (step_live cfg it) (observing p obs) ?s')"
    unfolding x observing_Cons by (simp del: run.simps add: run_live_Cons[OF so Cons.prems])
  have c': "conf_of ?s' p = Some (case conf_of s p of None \<Rightarrow> cnf | Some c \<Rightarrow> max c cnf)"
    by (simp add: observe_live_conf)
  have fin: "finite (set (map fst obs))" by simp
  show ?case
  proof (cases "conf_of s p")
    case None
    with c' Cons.IH[OF inv'] show ?thesis unfolding st by (simp add: x)
  next
    case (Some c)
    with c' Cons.IH[OF inv'] show ?thesis
      unfolding st using Max_bump[OF fin, of c cnf] by (simp add: x insert_commute)
  qed
qed

lemma run_observing_live_Suc:
  assumes so: "set_order it" and inv: "tracker_inv cfg s" and j: "j < length obs"
  shows "fst (run (step_live cfg it) (observing p (take (Suc j) obs)) s) =
     (case obs ! j of (cnf, now, crp, sv, tr) \<Rightarrow>
        fst (observe_live cfg it sv tr p cnf now crp
          (fst (run (step_live cfg it) (observing p (take j obs)) s))))"
proof -
  obtain cnf now crp sv tr where x: "obs ! j = (cnf, now, crp, sv, tr)" by (cases "obs ! j")
  let ?pre = "observing p (take j obs)"
  let ?sj = "fst (run (step_live cfg it) ?pre s)"
  have ob: "observing p (take (Suc j) obs) = ?pre @ [Observe p cnf now crp sv tr]"
    using j by (simp add: take_Suc_conv_app_nth observing_def x)
  have invj: "tracker_inv cfg ?sj" by (rule run_live_inv(1)[OF so inv])
  have r: "snd (snd (run (step_live cfg it) ?pre s)) = None" by (rule run_live_inv(2)[OF so inv])
  have b: "snd (snd (step_live cfg it (Observe p cnf now crp sv tr) ?sj)) = None"
    by (rule step_live_raised[OF so invj])
  show ?thesis
    unfolding ob run_append[OF r]
    by (simp del: run.simps add: x run.simps(1)
        run_Cons_None[of "step_live cfg it" "Observe p cnf now crp sv tr" ?sj, OF b])
qed

lemma run_observing_live_payload:
  assumes so: "set_order it" and inv: "tracker_inv cfg s" and j: "j < length obs"
    and pl: "pl \<in> set (emitted (fst (snd (run (step_live cfg it) (observing p obs) s)) ! j))"
  shows "Some (confidence pl) = conf_of (fst (run (step_live cfg it) (observing p (take (Suc j) obs)) s)) p"
proof -
  obtain cnf now crp sv tr where x: "obs ! j = (cnf, now, crp, sv, tr)" by (cases "obs ! j")
  let ?sj = "fst (run (step_live cfg it) (observing p (take j obs)) s)"
  have invj: "tracker_inv cfg ?sj" by (rule run_live_inv(1)[OF so inv])
  from pl have "pl \<in> set (emitted (fst (snd (observe_live cfg it sv tr p cnf now crp ?sj))))"
    by (simp add: run_observing_live_nth[OF so inv j] x)
  then have "confidence pl = (case conf_of ?sj p of None \<Rightarrow> cnf | Some c \<Rightarrow> max c cnf)"
    by (simp add: observe_live_emitted[OF so invj] split: if_splits)
  then show ?thesis
    by (simp add: run_observing_live_Suc[OF so inv j] x observe_live_conf)
qed

lemma observe_live_conf_mono:
  assumes "conf_of s q = Some c"
  shows "\<exists>c'. conf_of (fst (observe_live cfg it sv tr p cnf now crp s)) q = Some c' \<and> c \<le> c'"
  using assms by (auto simp: observe_live_conf)

text \<open>The same along an upload run.\<close>

lemma run_upload_Cons:
  assumes "set_order it" "tracker_inv cfg s"
  shows "fst (run (step_upload cfg it) (i # ins) s) = fst (run (step_upload cfg it) ins (fst (step_upload cfg it i s)))"
  by (simp del: run.simps
      add: run_Cons_None[of "step_upload cfg it" i s, OF step_upload_raised[OF assms]])

lemma run_observing_upload_nth:
  assumes so: "set_order it" and inv: "tracker_inv cfg s" and j: "j < length obs"
  shows "fst (snd (run (step_upload cfg it) (observing p obs) s)) ! j =
     (case obs ! j of (cnf, now, crp, sv, tr) \<Rightarrow>
        fst (snd (observe_upload cfg it tr p cnf now crp
          (fst (run (step_upload cfg it) (observing p (take j obs)) s)))))"
proof -
  have keep: "\<And>i s. tracker_inv cfg s \<Longrightarrow>
      tracker_inv cfg (fst (step_upload cfg it i s)) \<and> snd (snd (step_upload cfg it i s)) = None"
    using so by (simp add: step_upload_inv step_upload_raised)
  from j have j': "j < length (observing p obs)" by (simp add: observing_def)
  obtain cnf now crp sv tr where x: "obs ! j = (cnf, now, crp, sv, tr)" by (cases "obs ! j")
  have "fst (snd (run (step_upload cfg it) (observing p obs) s)) ! j =
      fst (snd (step_upload cfg it (observing p obs ! j)
        (fst (run (step_upload cfg it) (take j (observing p obs)) s))))"
    by (rule run_nth[of "tracker_inv cfg" "step_upload cfg it", OF keep inv j'])
  also have "\<dots> = fst (snd (observe_upload cfg it tr p cnf now crp
          (fst (run (step_upload cfg it) (observing p (take j obs)) s))))"
    by (simp add: observing_nth[OF j] observing_take x)
  finally show ?thesis by (simp add: x)
qed

lemma run_observing_upload_conf:
  assumes so: "set_order it" and inv: "tracker_inv cfg s"
  shows "conf_of (fst (run (step_upload cfg it) (observing p obs) s)) p =
     (if obs = [] then conf_of s p
      else Some (Max (set (map fst obs) \<union> set_option (conf_of s p))))"
  using inv
proof (induction obs arbitrary: s)
  case Nil
  show ?case by (simp add: observing_def)
next
  case (Cons x obs)
  obtain cnf now crp sv tr where x: "x = (cnf, now, crp, sv, tr)" by (cases x)
  let ?s' = "fst (observe_upload cfg it tr p cnf now crp s)"
  have inv': "tracker_inv cfg ?s'" by (rule observe_upload_inv[OF so Cons.prems])
  have st: "fst (run (step_upload cfg it) (observing p (x # obs)) s) =
            fst (run (step_upload cfg it) (observing p obs) ?s')"
    unfolding x observing_Cons by (simp del: run.simps add: run_upload_Cons[OF so Cons.prems])
  have c': "conf_of ?s' p = Some (case conf_of s p of None \<Rightarrow> cnf | Some c \<Rightarrow> max c cnf)"
    by (simp add: observe_upload_conf)
  have fin: "finite (set (map fst obs))" by simp
  show ?case
  proof (cases "conf_of s p")
    case None
    with c' Cons.IH[OF inv'] show ?thesis unfolding st by (simp add: x)
  next
    case (Some c)
    with c' Cons.IH[OF inv'] show ?thesis
      unfolding st using Max_bump[OF fin, of c cnf] by (simp add: x insert_commute)
  qed
qed

lemma run_observing_upload_Suc:
  assumes so: "set_order it" and inv: "tracker_inv cfg s" and j: "j < length obs"
  shows "fst (run (step_upload cfg it) (observing p (take (Suc j) obs)) s) =
     (case obs ! j of (cnf, now, crp, sv, tr) \<Rightarrow>
        fst (observe_upload cfg it tr p cnf now crp
          (fst (run (step_upload cfg it) (observing p (take j obs)) s))))"
proof -
  obtain cnf now crp sv tr where x: "obs ! j = (cnf, now, crp, sv, tr)" by (cases "obs ! j")
  let ?pre = "observing p (take j obs)"
  let ?sj = "fst (run (step_upload cfg it) ?pre s)"
  have ob: "observing p (take (Suc j) obs) = ?pre @ [Observe p cnf now crp sv tr]"
    using j by (simp add: take_Suc_conv_app_nth observing_def x)
  have invj: "tracker_inv cfg ?sj" by (rule run_upload_inv(1)[OF so inv])
  have r: "snd (snd (run (step_upload cfg it) ?pre s)) = None" by (rule run_upload_inv(2)[OF so inv])
  have b: "snd (snd (step_upload cfg it (Observe p cnf now crp sv tr) ?sj)) = None"
    by (rule step_upload_raised[OF so invj])
  show ?thesis
    unfolding ob run_append[OF r]
    by (simp del: run.simps add: x run.simps(1)
        run_Cons_None[of "step_upload cfg it" "Observe p cnf now crp sv tr" ?sj, OF b])
qed

lemma run_observing_upload_payload:
  assumes so: "set_order it" and inv: "tracker_inv cfg s" and j: "j < length obs"
    and pl: "pl \<in> set (emitted (fst (snd (run (step_upload cfg it) (observing p obs) s)) ! j))"
  shows "Some (confidence pl) = conf_of (fst (run (step_upload cfg it) (observing p (take (Suc j) obs)) s)) p"
proof -
  obtain cnf now crp sv tr where x: "obs ! j = (cnf, now, crp, sv, tr)" by (cases "obs ! j")
  let ?sj = "fst (run (step_upload cfg it) (observing p (take j obs)) s)"
  have invj: "tracker_inv cfg ?sj" by (rule run_upload_inv(1)[OF so inv])
  from pl have "pl \<in> set (emitted (fst (snd (observe_upload cfg it tr p cnf now crp ?sj))))"
    by (simp add: run_observing_upload_nth[OF so inv j] x)
  then have "confidence pl = (case conf_of ?sj p of None \<Rightarrow> cnf | Some c \<Rightarrow> max c cnf)"
    by (simp add: observe_upload_emitted[OF so invj] split: if_splits)
  then show ?thesis
    by (simp add: run_observing_upload_Suc[OF so inv j] x observe_upload_conf)
qed

lemma observe_upload_conf_mono:
  assumes "conf_of s q = Some c"
  shows "\<exists>c'. conf_of (fst (observe_upload cfg it tr p cnf now crp s)) q = Some c' \<and> c \<le> c'"
  using assms by (auto simp: observe_upload_conf)

lemma exit_watcher_upload_lookup:
  "map_of (plates_seen (exit_watcher_upload cfg now_ts s)) q = None \<or>
   map_of (plates_seen (exit_watcher_upload cfg now_ts s)) q = map_of (plates_seen s) q"
  by (simp add: exit_watcher_upload_eq map_of_fold_delete)


subsection \<open>The emitter fails\<close>

text \<open>In the livestream and upload variants a failing transport changes neither the outcome
  of the step nor the tracker it leaves.\<close>

lemma publish_failure_tolerated:
  assumes "set_order it" and "tracker_inv cfg s"
  shows "snd (snd (observe_live cfg it sv False p cnf now crp s)) = None
       \<and> fst (observe_live cfg it sv False p cnf now crp s) =
         fst (observe_live cfg it sv True p cnf now crp s)
       \<and> length (emitted (fst (snd (observe_live cfg it sv False p cnf now crp s)))) \<le> 1"
  by (simp add: observe_live_eq[OF assms] Let_def)

lemma publish_failure_tolerated_upload:
  assumes "set_order it" and "tracker_inv cfg s"
  shows "snd (snd (observe_upload cfg it False p cnf now crp s)) = None
       \<and> fst (observe_upload cfg it False p cnf now crp s) =
         fst (observe_upload cfg it True p cnf now crp s)
       \<and> length (emitted (fst (snd (observe_upload cfg it False p cnf now crp s)))) \<le> 1"
  by (simp add: observe_upload_eq[OF assms] Let_def)

subsection \<open>The actions of a step\<close>

lemma observe_live_acts:
  "fst (snd (observe_live cfg it sv tr p cnf now crp s)) = [] \<or>
   (\<exists>t pl out. fst (snd (observe_live cfg it sv tr p cnf now crp s)) = [ConfirmedAdd t, SaveDebug t, Emit pl out]
      \<or> fst (snd (observe_live cfg it sv tr p cnf now crp s)) =
          [ConfirmedAdd t, SaveDebug t, LogSaveFailure, Emit pl out]
      \<or> fst (snd (observe_live cfg it sv tr p cnf now crp s)) = [ConfirmedAdd t, Emit pl out])"
  by (simp add: observe_live_def Let_def split: sum.split)

lemma observe_upload_acts:
  "fst (snd (observe_upload cfg it tr p cnf now crp s)) = [] \<or>
   (\<exists>t pl out. fst (snd (observe_upload cfg it tr p cnf now crp s)) = [ConfirmedAdd t, Emit pl out, SaveDebug t]
      \<or> fst (snd (observe_upload cfg it tr p cnf now crp s)) = [ConfirmedAdd t, Emit pl out])"
  by (simp add: observe_upload_def Let_def split: sum.split)

lemma box_live_trace:
  "fst (snd (box_live cfg it sv tr p cnf now crp s)) =
     (if length p < 4 then [RunOcr]
      else [RunOcr, Acquire] @ fst (snd (observe_live cfg it sv tr p cnf now crp s)) @ [Release] @
           (if snd (snd (observe_live cfg it sv tr p cnf now crp s)) = None then [Draw] else []))"
  by (simp add: box_live_def split: prod.split option.split)

lemma box_upload_trace:
  "fst (snd (box_upload cfg it tr p cnf now crp s)) =
     (if length p < 4 then [RunOcr]
      else [RunOcr, Acquire] @ fst (snd (observe_upload cfg it tr p cnf now crp s)) @ [Release] @
           (if snd (snd (observe_upload cfg it tr p cnf now crp s)) = None then [Draw] else []))"
  by (simp add: box_upload_def split: prod.split option.split)


subsection \<open>The states along a run\<close>

lemma run_take_Suc:
  assumes keep: "\<And>i s. I s \<Longrightarrow> I (fst (step i s)) \<and> snd (snd (step i s)) = None"
    and "I s" and j: "j < length ins"
  shows "fst (run step (take (Suc j) ins) s) = fst (step (ins ! j) (fst (run step (take j ins) s)))"
proof -
  let ?pre = "take j ins"
  let ?sj = "fst (run step ?pre s)"
  from run_invariant[of I step s ?pre, OF keep \<open>I s\<close>]
  have pre: "I ?sj" "snd (snd (run step ?pre s)) = None" by simp_all
  from keep[OF pre(1), of "ins ! j"] have b: "snd (snd (step (ins ! j) ?sj)) = None" by simp
  have "take (Suc j) ins = ?pre @ [ins ! j]" using j by (rule take_Suc_conv_app_nth)
  then show ?thesis
    by (simp del: run.simps add: run_append[OF pre(2)] run.simps(1)
        run_Cons_None[of step "ins ! j" ?sj, OF b])
qed

lemma first_flip:
  assumes "P i" and "\<not> P j" and "i \<le> j"
  shows "\<exists>k. i \<le> k \<and> k < j \<and> P k \<and> \<not> P (Suc k)"
  using assms
proof (induction j)
  case 0
  then show ?case by simp
next
  case (Suc j)
  show ?case
  proof (cases "P j")
    case True
    from Suc.prems True have "i \<le> j" by (metis le_SucE)
    with True Suc.prems(2) show ?thesis by blast
  next
    case False
    from Suc.prems False have "i \<le> j" by (metis le_SucE)
    from Suc.IH[OF Suc.prems(1) False this] show ?thesis by (meson less_Suc_eq)
  qed
qed

subsection \<open>Events and the confirmed set along a run\<close>

lemma step_live_emitted:
  assumes "set_order it" and "tracker_inv cfg x"
    and "pl \<in> set (emitted (fst (snd (step_live cfg it i x))))"
  shows "plate pl \<notin> confirmed_plates x \<and> plate pl \<in> confirmed_plates (fst (step_live cfg it i x))"
proof (cases i)
  case (Observe p cnf now crp sv tr)
  with assms(3) show ?thesis
    by (auto simp: observe_live_emitted[OF assms(1,2)] observe_live_confirmed[OF assms(1,2)]
        split: if_splits)
next
  case (Sweep t)
  with assms(3) show ?thesis by simp
qed

lemma step_upload_emitted:
  assumes "set_order it" and "tracker_inv cfg x"
    and "pl \<in> set (emitted (fst (snd (step_upload cfg it i x))))"
  shows "plate pl \<notin> confirmed_plates x \<and> plate pl \<in> confirmed_plates (fst (step_upload cfg it i x))"
proof (cases i)
  case (Observe p cnf now crp sv tr)
  with assms(3) show ?thesis
    by (auto simp: observe_upload_emitted[OF assms(1,2)] observe_upload_confirmed[OF assms(1,2)]
        split: if_splits)
next
  case (Sweep t)
  with assms(3) show ?thesis by simp
qed

lemma step_live_confirmed_mono:
  assumes "set_order it" and "tracker_inv cfg x"
  shows "confirmed_plates x \<subseteq> confirmed_plates (fst (step_live cfg it i x))"
proof (cases i)
  case (Observe p cnf now crp sv tr)
  then show ?thesis using observe_live_subset[OF assms] by simp
next
  case (Sweep t)
  then show ?thesis by (simp add: exit_watcher_live_eq)
qed

lemma step_upload_unconfirm:
  assumes "set_order it" and "tracker_inv cfg x"
    and "p \<in> confirmed_plates x" and "p \<notin> confirmed_plates (fst (step_upload cfg it i x))"
  shows "\<exists>t. i = Sweep t \<and> p \<in> set (expired cfg t (plates_seen x)) \<and>
             count_of (fst (step_upload cfg it i x)) p = 0"
proof (cases i)
  case (Observe q cnf now crp sv tr)
  with assms(3,4) observe_upload_subset[OF assms(1,2), of tr q cnf now crp]
  show ?thesis by auto
next
  case (Sweep t)
  with assms(3,4) show ?thesis
    by (auto simp: exit_watcher_upload_eq count_of_def map_of_fold_delete)
qed

lemma run_live_events_once:
  assumes so: "set_order it" and inv: "tracker_inv cfg s"
    and ij: "i < j" "j < length ins"
    and pl: "pl \<in> set (emitted (fst (snd (run (step_live cfg it) ins s)) ! i))"
    and pl': "pl' \<in> set (emitted (fst (snd (run (step_live cfg it) ins s)) ! j))"
  shows "plate pl \<noteq> plate pl'"
proof -
  let ?st = "\<lambda>k. fst (run (step_live cfg it) (take k ins) s)"
  have keep: "\<And>i s. tracker_inv cfg s \<Longrightarrow>
      tracker_inv cfg (fst (step_live cfg it i s)) \<and> snd (snd (step_live cfg it i s)) = None"
    using so by (simp add: step_live_inv step_live_raised)
  have invk: "tracker_inv cfg (?st k)" for k by (rule run_live_inv(1)[OF so inv])
  from ij have i: "i < length ins" by simp
  have nth: "fst (snd (run (step_live cfg it) ins s)) ! k =
      fst (snd (step_live cfg it (ins ! k) (?st k)))" if "k < length ins" for k
    by (rule run_nth[of "tracker_inv cfg" "step_live cfg it", OF keep inv that])
  have suc: "?st (Suc k) = fst (step_live cfg it (ins ! k) (?st k))" if "k < length ins" for k
    by (rule run_take_Suc[of "tracker_inv cfg" "step_live cfg it", OF keep inv that])
  from pl have "plate pl \<in> confirmed_plates (?st (Suc i))"
    using step_live_emitted[OF so invk, of pl "ins ! i" i] by (simp add: nth[OF i] suc[OF i])
  moreover have "plate pl \<in> confirmed_plates (?st k) \<Longrightarrow> k < length ins \<Longrightarrow>
      plate pl \<in> confirmed_plates (?st (Suc k))" for k
    using step_live_confirmed_mono[OF so invk, of k "ins ! k"] by (auto simp: suc)
  ultimately have "plate pl \<in> confirmed_plates (?st j)"
  proof -
    assume a: "plate pl \<in> confirmed_plates (?st (Suc i))"
      and b: "\<And>k. plate pl \<in> confirmed_plates (?st k) \<Longrightarrow> k < length ins \<Longrightarrow>
        plate pl \<in> confirmed_plates (?st (Suc k))"
    have "Suc i \<le> k \<Longrightarrow> k \<le> j \<Longrightarrow> plate pl \<in> confirmed_plates (?st k)" for k
    proof (induction k)
      case 0
      then show ?case by simp
    next
      case (Suc k)
      show ?case
      proof (cases "Suc i = Suc k")
        case True
        with a show ?thesis by simp
      next
        case False
        with Suc.prems have "Suc i \<le> k" "k \<le> j" "k < length ins" using ij by simp_all
        with Suc.IH b show ?thesis by blast
      qed
    qed
    with ij show ?thesis by simp
  qed
  moreover from pl' have "plate pl' \<notin> confirmed_plates (?st j)"
    using step_live_emitted[OF so invk, of pl' "ins ! j" j] by (simp add: nth[OF ij(2)])
  ultimately show ?thesis by auto
qed

lemma run_upload_events_apart:
  assumes so: "set_order it" and inv: "tracker_inv cfg u"
    and ij: "i < j" "j < length ins"
    and pl: "pl \<in> set (emitted (fst (snd (run (step_upload cfg it) ins u)) ! i))"
    and pl': "pl' \<in> set (emitted (fst (snd (run (step_upload cfg it) ins u)) ! j))"
    and same: "plate pl' = plate pl"
  shows "\<exists>k t. i < k \<and> k < j \<and> ins ! k = Sweep t \<and>
     plate pl \<in> set (expired cfg t (plates_seen (fst (run (step_upload cfg it) (take k ins) u)))) \<and>
     plate pl \<notin> confirmed_plates (fst (run (step_upload cfg it) (take (Suc k) ins) u)) \<and>
     count_of (fst (run (step_upload cfg it) (take (Suc k) ins) u)) (plate pl) = 0"
proof -
  let ?st = "\<lambda>k. fst (run (step_upload cfg it) (take k ins) u)"
  let ?P = "\<lambda>k. plate pl \<in> confirmed_plates (?st k)"
  have keep: "\<And>i s. tracker_inv cfg s \<Longrightarrow>
      tracker_inv cfg (fst (step_upload cfg it i s)) \<and> snd (snd (step_upload cfg it i s)) = None"
    using so by (simp add: step_upload_inv step_upload_raised)
  have invk: "tracker_inv cfg (?st k)" for k by (rule run_upload_inv(1)[OF so inv])
  from ij have i: "i < length ins" by simp
  have nth: "fst (snd (run (step_upload cfg it) ins u)) ! k =
      fst (snd (step_upload cfg it (ins ! k) (?st k)))" if "k < length ins" for k
    by (rule run_nth[of "tracker_inv cfg" "step_upload cfg it", OF keep inv that])
  have suc: "?st (Suc k) = fst (step_upload cfg it (ins ! k) (?st k))" if "k < length ins" for k
    by (rule run_take_Suc[of "tracker_inv cfg" "step_upload cfg it", OF keep inv that])
  from pl have P: "?P (Suc i)"
    using step_upload_emitted[OF so invk, of pl "ins ! i" i] by (simp add: nth[OF i] suc[OF i])
  from pl' same have nP: "\<not> ?P j"
    using step_upload_emitted[OF so invk, of pl' "ins ! j" j] by (simp add: nth[OF ij(2)])
  from ij have "Suc i \<le> j" by simp
  from first_flip[of ?P, OF P nP this] obtain k where
    k: "Suc i \<le> k" "k < j" "?P k" "\<not> ?P (Suc k)" by blast
  from k(2) ij have kl: "k < length ins" by simp
  from step_upload_unconfirm[OF so invk k(3), of "ins ! k"] k(4)
  obtain t where "ins ! k = Sweep t" "plate pl \<in> set (expired cfg t (plates_seen (?st k)))"
    "count_of (?st (Suc k)) (plate pl) = 0"
    by (auto simp: suc[OF kl])
  with k show ?thesis by (intro exI[of _ k] exI[of _ t]) simp
qed

subsection \<open>The stored confidence along a run of observations of any texts\<close>

lemma seen_confs_append: "seen_confs p (xs @ ys) = seen_confs p xs @ seen_confs p ys"
  by (induction p xs rule: seen_confs.induct) simp_all

lemma seen_confs_observing: "seen_confs p (observing p obs) = map fst obs"
  by (induction obs) (auto simp: observing_def)

lemma list_all_observing: "list_all is_observe (observing p obs)"
  by (induction obs) (auto simp: observing_def)

lemma run_live_conf_mixed:
  assumes so: "set_order it" and inv: "tracker_inv cfg s" and obs: "list_all is_observe ins"
  shows "conf_of (fst (run (step_live cfg it) ins s)) p =
     (if seen_confs p ins = [] then conf_of s p
      else Some (Max (set (seen_confs p ins) \<union> set_option (conf_of s p))))"
  using inv obs
proof (induction ins arbitrary: s)
  case Nil
  show ?case by simp
next
  case (Cons i ins)
  from Cons.prems(2) obtain q cnf now crp sv tr where i: "i = Observe q cnf now crp sv tr"
    by (cases i) simp_all
  let ?s' = "fst (observe_live cfg it sv tr q cnf now crp s)"
  have inv': "tracker_inv cfg ?s'" by (rule observe_live_inv[OF so Cons.prems(1)])
  from Cons.prems(2) have obs': "list_all is_observe ins" by simp
  have st: "fst (run (step_live cfg it) (i # ins) s) = fst (run (step_live cfg it) ins ?s')"
    unfolding i by (simp del: run.simps add: run_live_Cons[OF so Cons.prems(1)])
  note IH = Cons.IH[OF inv' obs']
  have fin: "finite (set (seen_confs p ins))" by simp
  show ?case
  proof (cases "q = p")
    case False
    then have "conf_of ?s' p = conf_of s p" by (simp add: observe_live_conf)
    with IH False show ?thesis unfolding st by (simp add: i)
  next
    case True
    then have c': "conf_of ?s' p = Some (case conf_of s p of None \<Rightarrow> cnf | Some c \<Rightarrow> max c cnf)"
      by (simp add: observe_live_conf)
    show ?thesis
    proof (cases "conf_of s p")
      case None
      with c' IH True show ?thesis unfolding st by (simp add: i)
    next
      case (Some c)
      with c' IH True show ?thesis
        unfolding st using Max_bump[OF fin, of c cnf] by (simp add: i insert_commute)
    qed
  qed
qed

lemma run_live_payload_mixed:
  assumes so: "set_order it" and inv: "tracker_inv cfg s" and obs: "list_all is_observe ins"
    and j: "j < length ins"
    and pl: "pl \<in> set (emitted (fst (snd (run (step_live cfg it) ins s)) ! j))"
  shows "Some (confidence pl) = conf_of (fst (run (step_live cfg it) (take (Suc j) ins) s)) (plate pl)
       \<and> seen_confs (plate pl) (take (Suc j) ins) \<noteq> []"
proof -
  let ?sj = "fst (run (step_live cfg it) (take j ins) s)"
  have keep: "\<And>i s. tracker_inv cfg s \<Longrightarrow>
      tracker_inv cfg (fst (step_live cfg it i s)) \<and> snd (snd (step_live cfg it i s)) = None"
    using so by (simp add: step_live_inv step_live_raised)
  have invj: "tracker_inv cfg ?sj" by (rule run_live_inv(1)[OF so inv])
  from obs j have "is_observe (ins ! j)" by (simp add: list_all_length)
  then obtain q cnf now crp sv tr where i: "ins ! j = Observe q cnf now crp sv tr"
    by (cases "ins ! j") simp_all
  have nth: "fst (snd (run (step_live cfg it) ins s)) ! j =
      fst (snd (step_live cfg it (ins ! j) ?sj))"
    by (rule run_nth[of "tracker_inv cfg" "step_live cfg it", OF keep inv j])
  have suc: "fst (run (step_live cfg it) (take (Suc j) ins) s) =
      fst (step_live cfg it (ins ! j) ?sj)"
    by (rule run_take_Suc[of "tracker_inv cfg" "step_live cfg it", OF keep inv j])
  from pl have e: "pl \<in> set (emitted (fst (snd (observe_live cfg it sv tr q cnf now crp ?sj))))"
    by (simp add: nth i)
  then have q: "plate pl = q"
    and c: "confidence pl = (case conf_of ?sj q of None \<Rightarrow> cnf | Some c \<Rightarrow> max c cnf)"
    by (simp_all add: observe_live_emitted[OF so invj] split: if_splits)
  have a: "Some (confidence pl) =
      conf_of (fst (run (step_live cfg it) (take (Suc j) ins) s)) (plate pl)"
    by (simp add: suc i q c observe_live_conf)
  have "take (Suc j) ins = take j ins @ [ins ! j]" using j by (rule take_Suc_conv_app_nth)
  then have b: "seen_confs (plate pl) (take (Suc j) ins) \<noteq> []"
    by (simp add: seen_confs_append i q)
  from a b show ?thesis ..
qed

lemma run_upload_conf_mixed:
  assumes so: "set_order it" and inv: "tracker_inv cfg s" and obs: "list_all is_observe ins"
  shows "conf_of (fst (run (step_upload cfg it) ins s)) p =
     (if seen_confs p ins = [] then conf_of s p
      else Some (Max (set (seen_confs p ins) \<union> set_option (conf_of s p))))"
  using inv obs
proof (induction ins arbitrary: s)
  case Nil
  show ?case by simp
next
  case (Cons i ins)
  from Cons.prems(2) obtain q cnf now crp sv tr where i: "i = Observe q cnf now crp sv tr"
    by (cases i) simp_all
  let ?s' = "fst (observe_upload cfg it tr q cnf now crp s)"
  have inv': "tracker_inv cfg ?s'" by (rule observe_upload_inv[OF so Cons.prems(1)])
  from Cons.prems(2) have obs': "list_all is_observe ins" by simp
  have st: "fst (run (step_upload cfg it) (i # ins) s) = fst (run (step_upload cfg it) ins ?s')"
    unfolding i by (simp del: run.simps add: run_upload_Cons[OF so Cons.prems(1)])
  note IH = Cons.IH[OF inv' obs']
  have fin: "finite (set (seen_confs p ins))" by simp
  show ?case
  proof (cases "q = p")
    case False
    then have "conf_of ?s' p = conf_of s p" by (simp add: observe_upload_conf)
    with IH False show ?thesis unfolding st by (simp add: i)
  next
    case True
    then have c': "conf_of ?s' p = Some (case conf_of s p of None \<Rightarrow> cnf | Some c \<Rightarrow> max c cnf)"
      by (simp add: observe_upload_conf)
    show ?thesis
    proof (cases "conf_of s p")
      case None
      with c' IH True show ?thesis unfolding st by (simp add: i)
    next
      case (Some c)
      with c' IH True show ?thesis
        unfolding st using Max_bump[OF fin, of c cnf] by (simp add: i insert_commute)
    qed
  qed
qed

lemma run_upload_payload_mixed:
  assumes so: "set_order it" and inv: "tracker_inv cfg s" and obs: "list_all is_observe ins"
    and j: "j < length ins"
    and pl: "pl \<in> set (emitted (fst (snd (run (step_upload cfg it) ins s)) ! j))"
  shows "Some (confidence pl) = conf_of (fst (run (step_upload cfg it) (take (Suc j) ins) s)) (plate pl)
       \<and> seen_confs (plate pl) (take (Suc j) ins) \<noteq> []"
proof -
  let ?sj = "fst (run (step_upload cfg it) (take j ins) s)"
  have keep: "\<And>i s. tracker_inv cfg s \<Longrightarrow>
      tracker_inv cfg (fst (step_upload cfg it i s)) \<and> snd (snd (step_upload cfg it i s)) = None"
    using so by (simp add: step_upload_inv step_upload_raised)
  have invj: "tracker_inv cfg ?sj" by (rule run_upload_inv(1)[OF so inv])
  from obs j have "is_observe (ins ! j)" by (simp add: list_all_length)
  then obtain q cnf now crp sv tr where i: "ins ! j = Observe q cnf now crp sv tr"
    by (cases "ins ! j") simp_all
  have nth: "fst (snd (run (step_upload cfg it) ins s)) ! j =
      fst (snd (step_upload cfg it (ins ! j) ?sj))"
    by (rule run_nth[of "tracker_inv cfg" "step_upload cfg it", OF keep inv j])
  have suc: "fst (run (step_upload cfg it) (take (Suc j) ins) s) =
      fst (step_upload cfg it (ins ! j) ?sj)"
    by (rule run_take_Suc[of "tracker_inv cfg" "step_upload cfg it", OF keep inv j])
  from pl have e: "pl \<in> set (emitted (fst (snd (observe_upload cfg it tr q cnf now crp ?sj))))"
    by (simp add: nth i)
  then have q: "plate pl = q"
    and c: "confidence pl = (case conf_of ?sj q of None \<Rightarrow> cnf | Some c \<Rightarrow> max c cnf)"
    by (simp_all add: observe_upload_emitted[OF so invj] split: if_splits)
  have a: "Some (confidence pl) =
      conf_of (fst (run (step_upload cfg it) (take (Suc j) ins) s)) (plate pl)"
    by (simp add: suc i q c observe_upload_conf)
  have "take (Suc j) ins = take j ins @ [ins ! j]" using j by (rule take_Suc_conv_app_nth)
  then have b: "seen_confs (plate pl) (take (Suc j) ins) \<noteq> []"
    by (simp add: seen_confs_append i q)
  from a b show ?thesis ..
qed

subsection \<open>The console lines of the upload sweep\<close>

lemma exit_one_upload_confirmed:
  "confirmed_plates (exit_one_upload pid t) = confirmed_plates t - {pid}"
  by (auto simp: exit_one_upload_def)

lemma exit_log_upload_shape:
  "\<exists>pids. (exit_log_upload ks t :: 'img action list) = map LogExit pids \<and>
          set pids = set ks \<inter> confirmed_plates t"
proof (induction ks arbitrary: t)
  case Nil
  show ?case by simp
next
  case (Cons k ks)
  from Cons.IH[of "exit_one_upload k t"] obtain pids where
    p: "(exit_log_upload ks (exit_one_upload k t) :: 'img action list) = map LogExit pids"
    and sp: "set pids = set ks \<inter> (confirmed_plates t - {k})"
    by (auto simp: exit_one_upload_confirmed)
  show ?case
  proof (cases "k \<in> confirmed_plates t")
    case True
    have "(exit_log_upload (k # ks) t :: 'img action list) = map LogExit (k # pids)"
      using True p by simp
    moreover have "set (k # pids) = set (k # ks) \<inter> confirmed_plates t"
      using True sp by auto
    ultimately show ?thesis by blast
  next
    case False
    have "(exit_log_upload (k # ks) t :: 'img action list) = map LogExit pids"
      using False p by simp
    moreover have "set pids = set (k # ks) \<inter> confirmed_plates t"
      using False sp by auto
    ultimately show ?thesis by blast
  qed
qed

lemma held_across_log:
  "held_across True (map LogExit pids @ [Release, Sleep] :: 'img action list) \<longleftrightarrow> set pids \<noteq> {}"
  by (induction pids) auto

subsection \<open>Evaluating concrete runs\<close>

lemmas eval_defs = observing_def observe_live_def observe_upload_def observe_trial_def Let_def
  majority_def py_max_def py_count_def init_tracker_def live_config_def trial_config_def
  publish_event_def publish_event_trial_def raised_def exit_watcher_live_def
  exit_watcher_upload_def exit_one_upload_def expired_def count_of_def conf_of_def

text \<open>The differences that the sweeps of the scenarios below compute are doubles, so they
  are not rounded.\<close>

lemma double_sub_20_4: "double_sub 20 4 = 16"
  using double_sub_exact[of 20 4 16 0] by simp

lemma double_sub_33_2: "double_sub (33 / 2) 2 = 29 / 2"
  using double_sub_exact[of "33 / 2" 2 29 "- 1"] by (simp add: power_int_minus_divide)

lemma double_sub_33_1: "double_sub (33 / 2) 1 = 31 / 2"
  using double_sub_exact[of "33 / 2" 1 31 "- 1"] by (simp add: power_int_minus_divide)

text \<open>The upload sweep on the inputs of the re-entry scenario: the text leaves the confirmed
  set with its candidate, and the fifth fresh observation emits a second event.\<close>

lemma exit_watcher_upload_reentry:
  "run (step_upload live_config remdups)
     (observing ''XYZ999'' [(0.9, 0, 1::nat, True, True), (0.8, 1, 2, True, True),
        (0.95, 2, 3, True, True), (0.7, 3, 4, True, True), (0.6, 4, 5, True, True)] @
      [Sweep 20]) init_tracker =
   (\<lparr>plates_seen = [], confirmed_plates = {}, recorded_plates = {}\<rparr>,
    [[], [], [], [],
     [ConfirmedAdd ''XYZ999'',
      Emit \<lparr>plate = ''XYZ999'', event = ''entry'', confidence = 0.95, image = 5\<rparr> (Inr Published),
      SaveDebug ''XYZ999''],
     []], None)
   \<and>
   map emitted (fst (snd (run (step_upload live_config remdups)
     (observing ''XYZ999'' [(0.9, 21, 6::nat, True, True), (0.8, 22, 7, True, True),
        (0.95, 23, 8, True, True), (0.7, 24, 9, True, True), (0.6, 25, 10, True, True)])
     \<lparr>plates_seen = [], confirmed_plates = {}, recorded_plates = {}\<rparr>))) =
   [[], [], [], [],
    [\<lparr>plate = ''XYZ999'', event = ''entry'', confidence = 0.95, image = 10\<rparr>]]"
  by (simp add: eval_defs double_sub_20_4)

section \<open>The claims\<close>

text \<open>
  C5. In every tracker reached from the empty one, each candidate's \<open>texts\<close> is a non-empty
  list of copies of its key, so the set the vote runs over is the singleton of the key and
  the vote returns the key, whatever the iteration order of the set. Hence two runs over the
  same inputs that differ only in the iteration order give the same final tracker, the same
  actions (so the same confirmation events) and the same outcome, in the livestream and in the
  upload variant.
\<close>

theorem tracker_order_independent:
  assumes "set_order it1" and "set_order it2"
  shows "run (step_live cfg it1) ins init_tracker = run (step_live cfg it2) ins init_tracker
       \<and> run (step_upload cfg it1) ins' init_tracker = run (step_upload cfg it2) ins' init_tracker
       \<and> (\<forall>kv \<in> set (plates_seen (fst (run (step_live cfg it1) ins init_tracker))).
            texts (snd kv) \<noteq> [] \<and> set (texts (snd kv)) = {fst kv} \<and>
            set (it1 (texts (snd kv))) = {fst kv} \<and> majority it1 (texts (snd kv)) = Inr (fst kv))
       \<and> (\<forall>kv \<in> set (plates_seen (fst (run (step_upload cfg it1) ins' init_tracker))).
            texts (snd kv) \<noteq> [] \<and> set (texts (snd kv)) = {fst kv} \<and>
            set (it1 (texts (snd kv))) = {fst kv} \<and> majority it1 (texts (snd kv)) = Inr (fst kv))"
proof -
  have vote: "texts v \<noteq> [] \<and> set (texts v) = {k} \<and> set (it1 (texts v)) = {k} \<and>
      majority it1 (texts v) = Inr k"
    if "candidate_inv cfg cs (k, v)" for cs k and v :: "'z candidate_scheme"
  proof -
    from that have t: "texts v = replicate (nat (count v)) k" and c: "0 < nat (count v)"
      by (simp_all add: candidate_inv_def)
    from c have "set (texts v) = {k}" and "texts v \<noteq> []" by (simp_all add: t)
    moreover from assms(1) have "set (it1 (texts v)) = set (texts v)" by (simp add: set_order_def)
    moreover have "majority it1 (texts v) = Inr k"
      unfolding t using assms(1) c by (rule majority_replicate)
    ultimately show ?thesis by simp
  qed
  have live: "run (step_live cfg it1) ins init_tracker = run (step_live cfg it2) ins init_tracker"
    by (rule run_order[where I = "tracker_inv cfg"])
       (simp_all add: assms step_live_inv step_live_raised step_live_order[OF assms] init_tracker_inv)
  have upload: "run (step_upload cfg it1) ins' init_tracker = run (step_upload cfg it2) ins' init_tracker"
    by (rule run_order[where I = "tracker_inv cfg"])
       (simp_all add: assms step_upload_inv step_upload_raised step_upload_order[OF assms] init_tracker_inv)
  have "tracker_inv cfg (fst (run (step_live cfg it1) ins init_tracker))"
    by (rule run_live_inv(1)[OF assms(1) init_tracker_inv])
  then have il: "\<forall>kv \<in> set (plates_seen (fst (run (step_live cfg it1) ins init_tracker))).
      texts (snd kv) \<noteq> [] \<and> set (texts (snd kv)) = {fst kv} \<and>
      set (it1 (texts (snd kv))) = {fst kv} \<and> majority it1 (texts (snd kv)) = Inr (fst kv)"
    unfolding tracker_inv_def list_all_iff using vote by (metis prod.collapse)
  have "tracker_inv cfg (fst (run (step_upload cfg it1) ins' init_tracker))"
    by (rule run_upload_inv(1)[OF assms(1) init_tracker_inv])
  then have iu: "\<forall>kv \<in> set (plates_seen (fst (run (step_upload cfg it1) ins' init_tracker))).
      texts (snd kv) \<noteq> [] \<and> set (texts (snd kv)) = {fst kv} \<and>
      set (it1 (texts (snd kv))) = {fst kv} \<and> majority it1 (texts (snd kv)) = Inr (fst kv)"
    unfolding tracker_inv_def list_all_iff using vote by (metis prod.collapse)
  from live upload il iu show ?thesis by (intro conjI)
qed

theorem tracker_order_independent_witness:
  "set_order remdups \<and> set_order (\<lambda>xs. rev (remdups xs)) \<and>
   plates_seen (fst (run (step_live live_config remdups)
      [Observe ''B1234XY'' 0.9 0 (1::nat) True True, Observe ''AB12CD'' 0.8 1 2 True True,
       Observe ''B1234XY'' 0.7 2 3 True True, Sweep 16.5] init_tracker)) \<noteq> [] \<and>
   run (step_live live_config remdups)
      [Observe ''B1234XY'' 0.9 0 (1::nat) True True, Observe ''AB12CD'' 0.8 1 2 True True,
       Observe ''B1234XY'' 0.7 2 3 True True, Sweep 16.5] init_tracker =
   run (step_live live_config (\<lambda>xs. rev (remdups xs)))
      [Observe ''B1234XY'' 0.9 0 (1::nat) True True, Observe ''AB12CD'' 0.8 1 2 True True,
       Observe ''B1234XY'' 0.7 2 3 True True, Sweep 16.5] init_tracker \<and>
   list_all (\<lambda>kv. majority remdups (texts (snd kv)) = Inr (fst kv))
     (plates_seen (fst (run (step_live live_config remdups)
      [Observe ''B1234XY'' 0.9 0 (1::nat) True True, Observe ''AB12CD'' 0.8 1 2 True True,
       Observe ''B1234XY'' 0.7 2 3 True True, Sweep 16.5] init_tracker)))"
proof -
  note t = tracker_order_independent[OF set_order_remdups set_order_rev_remdups, of live_config
      "[Observe ''B1234XY'' 0.9 0 (1::nat) True True, Observe ''AB12CD'' 0.8 1 2 True True,
        Observe ''B1234XY'' 0.7 2 3 True True, Sweep 16.5]" "[]::unit input list"]
  have ne: "plates_seen (fst (run (step_live live_config remdups)
      [Observe ''B1234XY'' 0.9 0 (1::nat) True True, Observe ''AB12CD'' 0.8 1 2 True True,
       Observe ''B1234XY'' 0.7 2 3 True True, Sweep 16.5] init_tracker)) \<noteq> []"
    by (simp add: eval_defs double_sub_33_2 double_sub_33_1)
  from t ne set_order_remdups set_order_rev_remdups show ?thesis
    unfolding list_all_iff by blast
qed

text \<open>
  C1. In the livestream variant the sweep deletes the expired candidate and leaves
  \<^verbatim>\<open>confirmed_plates\<close> as it is: after five observations of \<open>XYZ999\<close> (threshold 5) and a
  sweep at 20 s the candidate is gone and the text is still confirmed, and five fresh
  observations, counted from 1 to 5, emit nothing.
\<close>

theorem exit_watcher_live_reentry:
  "run (step_live live_config remdups)
     (observing ''XYZ999'' [(0.9, 0, 1::nat, True, True), (0.8, 1, 2, True, True),
        (0.95, 2, 3, True, True), (0.7, 3, 4, True, True), (0.6, 4, 5, True, True)] @
      [Sweep 20]) init_tracker =
   (\<lparr>plates_seen = [], confirmed_plates = {''XYZ999''}, recorded_plates = {''XYZ999''}\<rparr>,
    [[], [], [], [],
     [ConfirmedAdd ''XYZ999'', SaveDebug ''XYZ999'',
      Emit \<lparr>plate = ''XYZ999'', event = ''entry'', confidence = 0.95, image = 5\<rparr> (Inr Published)],
     []], None)
   \<and>
   run (step_live live_config remdups)
     (observing ''XYZ999'' [(0.9, 21, 6::nat, True, True), (0.8, 22, 7, True, True),
        (0.95, 23, 8, True, True), (0.7, 24, 9, True, True), (0.6, 25, 10, True, True)])
     \<lparr>plates_seen = [], confirmed_plates = {''XYZ999''}, recorded_plates = {''XYZ999''}\<rparr> =
   (\<lparr>plates_seen = [(''XYZ999'', \<lparr>count = 5, last_seen = 25, conf = 0.95,
         texts = [''XYZ999'', ''XYZ999'', ''XYZ999'', ''XYZ999'', ''XYZ999'']\<rparr>)],
      confirmed_plates = {''XYZ999''}, recorded_plates = {''XYZ999''}\<rparr>,
    [[], [], [], [], []], None)"
  by (simp add: eval_defs double_sub_20_4)

text \<open>
  C6. For every iteration order of the set, the vote over a non-empty \<open>texts\<close> list returns
  one of its elements, and no element occurs more often; over
  \<open>[AB12CD, AB12CD, AB12CE]\<close> it returns \<open>AB12CD\<close>. The text of every payload that an
  observation emits is the vote over the \<open>texts\<close> of the candidate it has just updated; with
  threshold 3 and a candidate whose \<open>texts\<close> become \<open>[AB12CD, AB12CD, AB12CE]\<close>, the payload
  carries \<open>AB12CD\<close>.
\<close>

theorem majority_most_frequent:
  assumes "set_order it" and "txts \<noteq> []"
  shows "(\<exists>t. majority it txts = Inr t \<and> t \<in> set txts \<and>
            (\<forall>u \<in> set txts. count_list txts u \<le> count_list txts t))
       \<and> majority it [''AB12CD'', ''AB12CD'', ''AB12CE''] = Inr ''AB12CD''
       \<and> (\<forall>pl \<in> set (emitted (fst (snd (observe_live cfg it sv tr p cnf now crp s)))).
            \<exists>v. map_of (plates_seen (fst (observe_live cfg it sv tr p cnf now crp s))) p = Some v \<and>
                majority it (texts v) = Inr (plate pl))
       \<and> emitted (fst (snd (observe_live (live_config\<lparr>STABILITY_COUNT := 3\<rparr>) it sv tr ''AB12CE'' cnf now crp
            \<lparr>plates_seen = [(''AB12CE'', \<lparr>count = 2, last_seen = t0, conf = c0,
                                        texts = [''AB12CD'', ''AB12CD'']\<rparr>)],
             confirmed_plates = {}, recorded_plates = {}\<rparr>)))
         = [\<lparr>plate = ''AB12CD'', event = ''entry'', confidence = max c0 cnf, image = crp\<rparr>]"
proof -
  have last: "emitted (fst (snd (observe_live (live_config\<lparr>STABILITY_COUNT := 3\<rparr>) it sv tr ''AB12CE'' cnf now crp
            \<lparr>plates_seen = [(''AB12CE'', \<lparr>count = 2, last_seen = t0, conf = c0,
                                        texts = [''AB12CD'', ''AB12CD'']\<rparr>)],
             confirmed_plates = {}, recorded_plates = {}\<rparr>)))
         = [\<lparr>plate = ''AB12CD'', event = ''entry'', confidence = max c0 cnf, image = crp\<rparr>]"
    by (simp add: observe_live_def Let_def majority_example[OF assms(1)] live_config_def)
  have link: "\<forall>pl \<in> set (emitted (fst (snd (observe_live cfg it sv tr p cnf now crp s)))).
      \<exists>v. map_of (plates_seen (fst (observe_live cfg it sv tr p cnf now crp s))) p = Some v \<and>
          majority it (texts v) = Inr (plate pl)"
    using observe_live_emitted_vote by fast
  from majority_Inr[OF assms] majority_example[OF assms(1)] link last
  show ?thesis by (intro conjI)
qed


theorem majority_most_frequent_witness:
  "set_order remdups \<and> [''AB12CD'', ''AB12CD'', ''AB12CE''] \<noteq> [] \<and>
   majority remdups [''AB12CD'', ''AB12CD'', ''AB12CE''] = Inr ''AB12CD'' \<and>
   emitted (fst (snd (observe_live (live_config\<lparr>STABILITY_COUNT := 3\<rparr>) remdups True True
        ''AB12CE'' 0.9 2 (3::nat)
        \<lparr>plates_seen = [(''AB12CE'', \<lparr>count = 2, last_seen = 1, conf = 0.8,
                                    texts = [''AB12CD'', ''AB12CD'']\<rparr>)],
         confirmed_plates = {}, recorded_plates = {}\<rparr>)))
     = [\<lparr>plate = ''AB12CD'', event = ''entry'', confidence = 0.9, image = 3\<rparr>]"
  using majority_most_frequent[OF set_order_remdups,
      where txts = "[''AB12CD'', ''AB12CD'', ''AB12CE'']" and sv = True and tr = True
        and cnf = "0.9" and now = 2 and crp = "3::nat" and ?t0.0 = 1 and ?c0.0 = "0.8"
        and cfg = live_config and p = "''AB12CE''" and s = init_tracker]
    set_order_remdups
  by simp




text \<open>
  C3. In a tracker that satisfies the invariant, an observation of a text that is in the
  confirmed set emits no event and leaves the text confirmed (livestream and upload); every
  event that an observation emits is for the observed text, which was not confirmed before
  and is confirmed after it. An observation adds the observed text to the confirmed set
  exactly when its count reaches the threshold and removes nothing; the livestream sweep never
  changes the confirmed set; the upload sweep removes a text only together with its
  candidate, so that the next observation of the text starts again at count 1. Hence, along
  every run from such a tracker: in the livestream variant no two steps emit an event for
  the same text, and in the upload variant between two steps that emit an event for the same
  text there is a sweep in which the text had expired and which leaves it unconfirmed with
  count 0.
\<close>

theorem no_second_confirmation:
  assumes "set_order it" and "tracker_inv cfg s" and "tracker_inv cfg u"
  shows "(p \<in> confirmed_plates s \<longrightarrow>
            emitted (fst (snd (observe_live cfg it sv tr p cnf now crp s))) = [] \<and>
            p \<in> confirmed_plates (fst (observe_live cfg it sv tr p cnf now crp s)))
       \<and> (p \<in> confirmed_plates u \<longrightarrow>
            emitted (fst (snd (observe_upload cfg it tr p cnf now crp u))) = [] \<and>
            p \<in> confirmed_plates (fst (observe_upload cfg it tr p cnf now crp u)))
       \<and> (\<forall>pl \<in> set (emitted (fst (snd (observe_live cfg it sv tr p cnf now crp s)))).
            plate pl = p \<and> p \<notin> confirmed_plates s \<and>
            p \<in> confirmed_plates (fst (observe_live cfg it sv tr p cnf now crp s)))
       \<and> (\<forall>pl \<in> set (emitted (fst (snd (observe_upload cfg it tr p cnf now crp u)))).
            plate pl = p \<and> p \<notin> confirmed_plates u \<and>
            p \<in> confirmed_plates (fst (observe_upload cfg it tr p cnf now crp u)))
       \<and> confirmed_plates s \<subseteq> confirmed_plates (fst (observe_live cfg it sv tr q cnf now crp s))
       \<and> confirmed_plates u \<subseteq> confirmed_plates (fst (observe_upload cfg it tr q cnf now crp u))
       \<and> confirmed_plates (exit_watcher_live cfg now_ts s) = confirmed_plates s
       \<and> (p \<in> confirmed_plates u \<and> p \<notin> confirmed_plates (exit_watcher_upload cfg now_ts u) \<longrightarrow>
            map_of (plates_seen (exit_watcher_upload cfg now_ts u)) p = None \<and>
            count_of (fst (observe_upload cfg it tr p cnf now crp (exit_watcher_upload cfg now_ts u))) p = 1)
       \<and> confirmed_plates (fst (observe_live cfg it sv tr p cnf now crp s)) =
           (if STABILITY_COUNT cfg \<le> count_of s p + 1
            then insert p (confirmed_plates s) else confirmed_plates s)
       \<and> confirmed_plates (fst (observe_upload cfg it tr p cnf now crp u)) =
           (if STABILITY_COUNT cfg \<le> count_of u p + 1
            then insert p (confirmed_plates u) else confirmed_plates u)
       \<and> (\<forall>i j. i < j \<and> j < length ins \<longrightarrow>
            (\<forall>pl \<in> set (emitted (fst (snd (run (step_live cfg it) ins s)) ! i)).
             \<forall>pl' \<in> set (emitted (fst (snd (run (step_live cfg it) ins s)) ! j)).
               plate pl \<noteq> plate pl'))
       \<and> (\<forall>i j. i < j \<and> j < length ins' \<longrightarrow>
            (\<forall>pl \<in> set (emitted (fst (snd (run (step_upload cfg it) ins' u)) ! i)).
             \<forall>pl' \<in> set (emitted (fst (snd (run (step_upload cfg it) ins' u)) ! j)).
               plate pl' = plate pl \<longrightarrow>
               (\<exists>k t. i < k \<and> k < j \<and> ins' ! k = Sweep t \<and>
                  plate pl \<in> set (expired cfg t
                    (plates_seen (fst (run (step_upload cfg it) (take k ins') u)))) \<and>
                  plate pl \<notin> confirmed_plates (fst (run (step_upload cfg it) (take (Suc k) ins') u)) \<and>
                  count_of (fst (run (step_upload cfg it) (take (Suc k) ins') u)) (plate pl) = 0)))"
proof -
  note el = observe_live_emitted[OF assms(1,2)] and cl = observe_live_confirmed[OF assms(1,2)]
  note eu = observe_upload_emitted[OF assms(1,3)] and cu = observe_upload_confirmed[OF assms(1,3)]
  have a: "p \<in> confirmed_plates s \<longrightarrow>
            emitted (fst (snd (observe_live cfg it sv tr p cnf now crp s))) = [] \<and>
            p \<in> confirmed_plates (fst (observe_live cfg it sv tr p cnf now crp s))"
    by (simp add: el cl)
  have b: "p \<in> confirmed_plates u \<longrightarrow>
            emitted (fst (snd (observe_upload cfg it tr p cnf now crp u))) = [] \<and>
            p \<in> confirmed_plates (fst (observe_upload cfg it tr p cnf now crp u))"
    by (simp add: eu cu)
  have c: "\<forall>pl \<in> set (emitted (fst (snd (observe_live cfg it sv tr p cnf now crp s)))).
            plate pl = p \<and> p \<notin> confirmed_plates s \<and>
            p \<in> confirmed_plates (fst (observe_live cfg it sv tr p cnf now crp s))"
    by (simp add: el cl)
  have d: "\<forall>pl \<in> set (emitted (fst (snd (observe_upload cfg it tr p cnf now crp u)))).
            plate pl = p \<and> p \<notin> confirmed_plates u \<and>
            p \<in> confirmed_plates (fst (observe_upload cfg it tr p cnf now crp u))"
    by (simp add: eu cu)
  have e: "confirmed_plates s \<subseteq> confirmed_plates (fst (observe_live cfg it sv tr q cnf now crp s))"
    by (rule observe_live_subset[OF assms(1,2)])
  have f: "confirmed_plates u \<subseteq> confirmed_plates (fst (observe_upload cfg it tr q cnf now crp u))"
    by (rule observe_upload_subset[OF assms(1,3)])
  have g: "confirmed_plates (exit_watcher_live cfg now_ts s) = confirmed_plates s"
    by (simp add: exit_watcher_live_eq)
  have h: "p \<in> confirmed_plates u \<and> p \<notin> confirmed_plates (exit_watcher_upload cfg now_ts u) \<longrightarrow>
            map_of (plates_seen (exit_watcher_upload cfg now_ts u)) p = None \<and>
            count_of (fst (observe_upload cfg it tr p cnf now crp (exit_watcher_upload cfg now_ts u))) p = 1"
  proof (intro impI, elim conjE)
    assume "p \<in> confirmed_plates u" "p \<notin> confirmed_plates (exit_watcher_upload cfg now_ts u)"
    with assms(3) have "map_of (plates_seen (exit_watcher_upload cfg now_ts u)) p = None"
      by (intro exit_watcher_upload_unconfirms) (simp_all add: tracker_inv_def)
    then show "map_of (plates_seen (exit_watcher_upload cfg now_ts u)) p = None \<and>
            count_of (fst (observe_upload cfg it tr p cnf now crp (exit_watcher_upload cfg now_ts u))) p = 1"
      by (simp add: observe_upload_count) (simp add: count_of_def)
  qed
  have k: "\<forall>i j. i < j \<and> j < length ins \<longrightarrow>
            (\<forall>pl \<in> set (emitted (fst (snd (run (step_live cfg it) ins s)) ! i)).
             \<forall>pl' \<in> set (emitted (fst (snd (run (step_live cfg it) ins s)) ! j)).
               plate pl \<noteq> plate pl')"
    using run_live_events_once[OF assms(1,2)] by blast
  have l: "\<forall>i j. i < j \<and> j < length ins' \<longrightarrow>
            (\<forall>pl \<in> set (emitted (fst (snd (run (step_upload cfg it) ins' u)) ! i)).
             \<forall>pl' \<in> set (emitted (fst (snd (run (step_upload cfg it) ins' u)) ! j)).
               plate pl' = plate pl \<longrightarrow>
               (\<exists>k t. i < k \<and> k < j \<and> ins' ! k = Sweep t \<and>
                  plate pl \<in> set (expired cfg t
                    (plates_seen (fst (run (step_upload cfg it) (take k ins') u)))) \<and>
                  plate pl \<notin> confirmed_plates (fst (run (step_upload cfg it) (take (Suc k) ins') u)) \<and>
                  count_of (fst (run (step_upload cfg it) (take (Suc k) ins') u)) (plate pl) = 0))"
  proof (intro allI impI ballI, elim conjE)
    fix i j pl pl'
    assume "i < j" "j < length ins'"
      "pl \<in> set (emitted (fst (snd (run (step_upload cfg it) ins' u)) ! i))"
      "pl' \<in> set (emitted (fst (snd (run (step_upload cfg it) ins' u)) ! j))"
      "plate pl' = plate pl"
    then show "\<exists>k t. i < k \<and> k < j \<and> ins' ! k = Sweep t \<and>
                  plate pl \<in> set (expired cfg t
                    (plates_seen (fst (run (step_upload cfg it) (take k ins') u)))) \<and>
                  plate pl \<notin> confirmed_plates (fst (run (step_upload cfg it) (take (Suc k) ins') u)) \<and>
                  count_of (fst (run (step_upload cfg it) (take (Suc k) ins') u)) (plate pl) = 0"
      by (rule run_upload_events_apart[OF assms(1,3)])
  qed
  from a b c d e f g h cl cu k l show ?thesis by (intro conjI)
qed

theorem no_second_confirmation_witness:
  "set_order remdups
   \<and> tracker_inv live_config (fst (run (step_live live_config remdups) (observing ''XYZ999''
       [(0.5, 0, 1::nat, True, True), (0.75, 1, 2, True, True),
        (0.875, 2, 3, True, True), (0.625, 3, 4, True, True), (0.5, 4, 5, True, True)]) init_tracker))
   \<and> tracker_inv live_config (fst (run (step_upload live_config remdups) (observing ''XYZ999''
       [(0.5, 0, 1::nat, True, True), (0.75, 1, 2, True, True),
        (0.875, 2, 3, True, True), (0.625, 3, 4, True, True), (0.5, 4, 5, True, True)]) init_tracker))
   \<and> ''XYZ999'' \<in> confirmed_plates (fst (run (step_live live_config remdups) (observing ''XYZ999''
       [(0.5, 0, 1::nat, True, True), (0.75, 1, 2, True, True),
        (0.875, 2, 3, True, True), (0.625, 3, 4, True, True), (0.5, 4, 5, True, True)]) init_tracker))
   \<and> emitted (fst (snd (observe_live live_config remdups True True ''XYZ999'' 0.5 5 (6::nat) (fst (run (step_live live_config remdups) (observing ''XYZ999''
       [(0.5, 0, 1::nat, True, True), (0.75, 1, 2, True, True),
        (0.875, 2, 3, True, True), (0.625, 3, 4, True, True), (0.5, 4, 5, True, True)]) init_tracker))))) = []
   \<and> ''XYZ999'' \<in> confirmed_plates (fst (run (step_upload live_config remdups) (observing ''XYZ999''
       [(0.5, 0, 1::nat, True, True), (0.75, 1, 2, True, True),
        (0.875, 2, 3, True, True), (0.625, 3, 4, True, True), (0.5, 4, 5, True, True)]) init_tracker))
   \<and> emitted (fst (snd (observe_upload live_config remdups True ''XYZ999'' 0.5 5 (6::nat) (fst (run (step_upload live_config remdups) (observing ''XYZ999''
       [(0.5, 0, 1::nat, True, True), (0.75, 1, 2, True, True),
        (0.875, 2, 3, True, True), (0.625, 3, 4, True, True), (0.5, 4, 5, True, True)]) init_tracker))))) = []
   \<and> tracker_inv live_config (init_tracker :: nat candidate_crop tracker)
   \<and> map plate (emitted (fst (snd (run (step_upload live_config remdups) (observing ''XYZ999''
       [(0.5, 0, 1::nat, True, True), (0.75, 1, 2, True, True),
        (0.875, 2, 3, True, True), (0.625, 3, 4, True, True), (0.5, 4, 5, True, True)] @ [Sweep 20] @
      observing ''XYZ999''
       [(0.5, 21, 6::nat, True, True), (0.75, 22, 7, True, True),
        (0.875, 23, 8, True, True), (0.625, 24, 9, True, True), (0.5, 25, 10, True, True)]) init_tracker)) ! 4)) =
       [''XYZ999'']
   \<and> map plate (emitted (fst (snd (run (step_upload live_config remdups) (observing ''XYZ999''
       [(0.5, 0, 1::nat, True, True), (0.75, 1, 2, True, True),
        (0.875, 2, 3, True, True), (0.625, 3, 4, True, True), (0.5, 4, 5, True, True)] @ [Sweep 20] @
      observing ''XYZ999''
       [(0.5, 21, 6::nat, True, True), (0.75, 22, 7, True, True),
        (0.875, 23, 8, True, True), (0.625, 24, 9, True, True), (0.5, 25, 10, True, True)]) init_tracker)) ! 10)) =
       [''XYZ999'']
   \<and> (\<exists>k t. 4 < k \<and> k < 10 \<and> (observing ''XYZ999''
       [(0.5, 0, 1::nat, True, True), (0.75, 1, 2, True, True),
        (0.875, 2, 3, True, True), (0.625, 3, 4, True, True), (0.5, 4, 5, True, True)] @ [Sweep 20] @
      observing ''XYZ999''
       [(0.5, 21, 6::nat, True, True), (0.75, 22, 7, True, True),
        (0.875, 23, 8, True, True), (0.625, 24, 9, True, True), (0.5, 25, 10, True, True)]) ! k = Sweep t \<and>
         ''XYZ999'' \<in> set (expired live_config t
            (plates_seen (fst (run (step_upload live_config remdups) (take k (observing ''XYZ999''
       [(0.5, 0, 1::nat, True, True), (0.75, 1, 2, True, True),
        (0.875, 2, 3, True, True), (0.625, 3, 4, True, True), (0.5, 4, 5, True, True)] @ [Sweep 20] @
      observing ''XYZ999''
       [(0.5, 21, 6::nat, True, True), (0.75, 22, 7, True, True),
        (0.875, 23, 8, True, True), (0.625, 24, 9, True, True), (0.5, 25, 10, True, True)])) init_tracker)))) \<and>
         ''XYZ999'' \<notin> confirmed_plates
            (fst (run (step_upload live_config remdups) (take (Suc k) (observing ''XYZ999''
       [(0.5, 0, 1::nat, True, True), (0.75, 1, 2, True, True),
        (0.875, 2, 3, True, True), (0.625, 3, 4, True, True), (0.5, 4, 5, True, True)] @ [Sweep 20] @
      observing ''XYZ999''
       [(0.5, 21, 6::nat, True, True), (0.75, 22, 7, True, True),
        (0.875, 23, 8, True, True), (0.625, 24, 9, True, True), (0.5, 25, 10, True, True)])) init_tracker)) \<and>
         count_of (fst (run (step_upload live_config remdups) (take (Suc k) (observing ''XYZ999''
       [(0.5, 0, 1::nat, True, True), (0.75, 1, 2, True, True),
        (0.875, 2, 3, True, True), (0.625, 3, 4, True, True), (0.5, 4, 5, True, True)] @ [Sweep 20] @
      observing ''XYZ999''
       [(0.5, 21, 6::nat, True, True), (0.75, 22, 7, True, True),
        (0.875, 23, 8, True, True), (0.625, 24, 9, True, True), (0.5, 25, 10, True, True)])) init_tracker))
            ''XYZ999'' = 0)"
proof -
  let ?s = "(fst (run (step_live live_config remdups) (observing ''XYZ999''
       [(0.5, 0, 1::nat, True, True), (0.75, 1, 2, True, True),
        (0.875, 2, 3, True, True), (0.625, 3, 4, True, True), (0.5, 4, 5, True, True)]) init_tracker))"
  let ?u = "(fst (run (step_upload live_config remdups) (observing ''XYZ999''
       [(0.5, 0, 1::nat, True, True), (0.75, 1, 2, True, True),
        (0.875, 2, 3, True, True), (0.625, 3, 4, True, True), (0.5, 4, 5, True, True)]) init_tracker))"
  let ?ins = "(observing ''XYZ999''
       [(0.5, 0, 1::nat, True, True), (0.75, 1, 2, True, True),
        (0.875, 2, 3, True, True), (0.625, 3, 4, True, True), (0.5, 4, 5, True, True)] @ [Sweep 20] @
      observing ''XYZ999''
       [(0.5, 21, 6::nat, True, True), (0.75, 22, 7, True, True),
        (0.875, 23, 8, True, True), (0.625, 24, 9, True, True), (0.5, 25, 10, True, True)])"
  let ?outs = "fst (snd (run (step_upload live_config remdups) ?ins init_tracker))"
  have s: "tracker_inv live_config ?s"
    by (rule run_live_inv(1)[OF set_order_remdups init_tracker_inv])
  have u: "tracker_inv live_config ?u"
    by (rule run_upload_inv(1)[OF set_order_remdups init_tracker_inv])
  have i0: "tracker_inv live_config (init_tracker :: nat candidate_crop tracker)"
    by (rule init_tracker_inv)
  have ps: "''XYZ999'' \<in> confirmed_plates ?s" by (simp add: eval_defs)
  have pu: "''XYZ999'' \<in> confirmed_plates ?u" by (simp add: eval_defs)
  note t = no_second_confirmation[OF set_order_remdups s u, where p = "''XYZ999''" and sv = True
      and tr = True and cnf = "0.5" and now = 5 and crp = "6::nat"]
  from t[THEN conjunct1] ps
  have a: "emitted (fst (snd (observe_live live_config remdups True True ''XYZ999'' 0.5 5 (6::nat) ?s))) = []"
    by blast
  from t[THEN conjunct2, THEN conjunct1] pu
  have b: "emitted (fst (snd (observe_upload live_config remdups True ''XYZ999'' 0.5 5 (6::nat) ?u))) = []"
    by blast
  have e4: "emitted (?outs ! 4) =
      [\<lparr>plate = ''XYZ999'', event = ''entry'', confidence = 0.875, image = 5\<rparr>]"
    by (simp add: eval_defs double_sub_20_4)
  have e10: "emitted (?outs ! 10) =
      [\<lparr>plate = ''XYZ999'', event = ''entry'', confidence = 0.875, image = 10\<rparr>]"
    by (simp add: eval_defs double_sub_20_4)
  have len: "(4::nat) < 10 \<and> 10 < length ?ins" by (simp add: observing_def)
  note r = no_second_confirmation[OF set_order_remdups init_tracker_inv[of live_config] i0,
      where ins' = "?ins",
      THEN conjunct2, THEN conjunct2, THEN conjunct2, THEN conjunct2, THEN conjunct2,
      THEN conjunct2, THEN conjunct2, THEN conjunct2, THEN conjunct2, THEN conjunct2,
      THEN conjunct2, rule_format, where i = 4 and j = 10
      and pl = "\<lparr>plate = ''XYZ999'', event = ''entry'', confidence = 0.875, image = 5\<rparr>"
      and pl' = "\<lparr>plate = ''XYZ999'', event = ''entry'', confidence = 0.875, image = 10\<rparr>"]
  have ex: "\<exists>k t. 4 < k \<and> k < 10 \<and> ?ins ! k = Sweep t \<and>
         ''XYZ999'' \<in> set (expired live_config t
            (plates_seen (fst (run (step_upload live_config remdups) (take k ?ins) init_tracker)))) \<and>
         ''XYZ999'' \<notin> confirmed_plates
            (fst (run (step_upload live_config remdups) (take (Suc k) ?ins) init_tracker)) \<and>
         count_of (fst (run (step_upload live_config remdups) (take (Suc k) ?ins) init_tracker))
            ''XYZ999'' = 0"
    using r[OF len] unfolding e4 e10 by simp
  have m4: "map plate (emitted (?outs ! 4)) = [''XYZ999'']" unfolding e4 by simp
  have m10: "map plate (emitted (?outs ! 10)) = [''XYZ999'']" unfolding e10 by simp
  from set_order_remdups s u ps a pu b i0 m4 m10 ex show ?thesis by (intro conjI)
qed

text \<open>
  C2. From a tracker that satisfies the invariant and in which the text \<open>p\<close> is not confirmed,
  a run of livestream observations of \<open>p\<close> (no sweep in between) emits an event at call \<open>j\<close>
  (counted from 0) exactly when the count after that call, \<open>count_of s p + j + 1\<close>, is at
  least \<open>STABILITY_COUNT\<close> and the count after every earlier call of the run was below it.
  A call emits at most one event, and the event is for \<open>p\<close>.
\<close>

theorem confirmation_at_threshold:
  assumes "set_order it" and "tracker_inv cfg s" and "p \<notin> confirmed_plates s"
    and "j < length obs"
  shows "(emitted (fst (snd (run (step_live cfg it) (observing p obs) s)) ! j) \<noteq> [] \<longleftrightarrow>
            STABILITY_COUNT cfg \<le> count_of s p + int j + 1 \<and>
            (\<forall>i<j. count_of s p + int i + 1 < STABILITY_COUNT cfg))
       \<and> length (emitted (fst (snd (run (step_live cfg it) (observing p obs) s)) ! j)) \<le> 1
       \<and> (\<forall>pl \<in> set (emitted (fst (snd (run (step_live cfg it) (observing p obs) s)) ! j)).
            plate pl = p)
       \<and> count_of (fst (run (step_live cfg it) (observing p (take (Suc j) obs)) s)) p =
            count_of s p + int j + 1"
proof -
  let ?sj = "fst (run (step_live cfg it) (observing p (take j obs)) s)"
  obtain cnf now crp sv tr where x: "obs ! j = (cnf, now, crp, sv, tr)" by (cases "obs ! j")
  have out: "fst (snd (run (step_live cfg it) (observing p obs) s)) ! j =
      fst (snd (observe_live cfg it sv tr p cnf now crp ?sj))"
    by (simp add: run_observing_live_nth[OF assms(1,2,4)] x)
  have invj: "tracker_inv cfg ?sj" by (rule run_live_inv(1)[OF assms(1,2)])
  have ne: "take j obs \<noteq> [] \<longleftrightarrow> j \<noteq> 0" using assms(4) by (cases obs) auto
  from run_observing_live_state[OF assms(1,2), of p "take j obs"] assms(4)
  have cj: "count_of ?sj p = count_of s p + int j"
    and fj: "confirmed_plates ?sj =
      (if j \<noteq> 0 \<and> STABILITY_COUNT cfg \<le> count_of s p + int j
       then insert p (confirmed_plates s) else confirmed_plates s)"
    unfolding ne by (simp_all add: min_def)
  note em = observe_live_emitted[OF assms(1) invj, of sv tr p cnf now crp]
  have a: "emitted (fst (snd (run (step_live cfg it) (observing p obs) s)) ! j) \<noteq> [] \<longleftrightarrow>
            STABILITY_COUNT cfg \<le> count_of s p + int j + 1 \<and>
            (\<forall>i<j. count_of s p + int i + 1 < STABILITY_COUNT cfg)"
    unfolding out em first_reach_iff cj fj using assms(3) by auto
  have b: "length (emitted (fst (snd (run (step_live cfg it) (observing p obs) s)) ! j)) \<le> 1"
    unfolding out em by simp
  have c: "\<forall>pl \<in> set (emitted (fst (snd (run (step_live cfg it) (observing p obs) s)) ! j)).
            plate pl = p"
    unfolding out em by simp
  from run_observing_live_state[OF assms(1,2), of p "take (Suc j) obs"] assms(4)
  have d: "count_of (fst (run (step_live cfg it) (observing p (take (Suc j) obs)) s)) p =
            count_of s p + int j + 1"
    by (simp add: min_def)
  from a b c d show ?thesis by (intro conjI)
qed


theorem confirmation_at_threshold_witness:
  "set_order remdups \<and> tracker_inv live_config (init_tracker :: candidate tracker) \<and>
   ''B1234XY'' \<notin> confirmed_plates (init_tracker :: candidate tracker) \<and>
   emitted (fst (snd (run (step_live live_config remdups) (observing ''B1234XY''
       [(0.9, 0, 1::nat, True, True), (0.85, 0.2, 2, True, True),
        (0.95, 0.4, 3, True, True), (0.7, 0.6, 4, True, True), (0.6, 0.8, 5, True, True),
        (0.5, 1, 6, True, True)]) init_tracker)) ! 3) = [] \<and>
   emitted (fst (snd (run (step_live live_config remdups) (observing ''B1234XY''
       [(0.9, 0, 1::nat, True, True), (0.85, 0.2, 2, True, True),
        (0.95, 0.4, 3, True, True), (0.7, 0.6, 4, True, True), (0.6, 0.8, 5, True, True),
        (0.5, 1, 6, True, True)]) init_tracker)) ! 4) \<noteq> [] \<and>
   emitted (fst (snd (run (step_live live_config remdups) (observing ''B1234XY''
       [(0.9, 0, 1::nat, True, True), (0.85, 0.2, 2, True, True),
        (0.95, 0.4, 3, True, True), (0.7, 0.6, 4, True, True), (0.6, 0.8, 5, True, True),
        (0.5, 1, 6, True, True)]) init_tracker)) ! 5) = [] \<and>
   count_of (fst (run (step_live live_config remdups) (observing ''B1234XY''
       (take (Suc 4) [(0.9, 0, 1::nat, True, True), (0.85, 0.2, 2, True, True),
        (0.95, 0.4, 3, True, True), (0.7, 0.6, 4, True, True), (0.6, 0.8, 5, True, True),
        (0.5, 1, 6, True, True)])) init_tracker)) ''B1234XY'' = STABILITY_COUNT live_config"
proof -
  have n: "''B1234XY'' \<notin> confirmed_plates (init_tracker :: candidate tracker)"
    by (simp add: init_tracker_def)
  have c: "count_of (init_tracker :: candidate tracker) ''B1234XY'' = 0"
    by (simp add: init_tracker_def count_of_def)
  have S: "STABILITY_COUNT live_config = 5" by (simp add: live_config_def)
  have l: "(3::nat) < length [(0.9, 0, 1::nat, True, True), (0.85, 0.2, 2, True, True),
        (0.95, 0.4, 3, True, True), (0.7, 0.6, 4, True, True), (0.6, 0.8, 5, True, True),
        (0.5, 1, 6, True, True)]" "(4::nat) < length [(0.9, 0, 1::nat, True, True), (0.85, 0.2, 2, True, True),
        (0.95, 0.4, 3, True, True), (0.7, 0.6, 4, True, True), (0.6, 0.8, 5, True, True),
        (0.5, 1, 6, True, True)]" "(5::nat) < length [(0.9, 0, 1::nat, True, True), (0.85, 0.2, 2, True, True),
        (0.95, 0.4, 3, True, True), (0.7, 0.6, 4, True, True), (0.6, 0.8, 5, True, True),
        (0.5, 1, 6, True, True)]"
    by simp_all
  note t = confirmation_at_threshold[OF set_order_remdups init_tracker_inv n, of _ _ live_config,
      unfolded c S]
  have a4: "\<forall>i<4::nat. 0 + int i + 1 < 5" by auto
  have a5: "\<not> (\<forall>i<5::nat. 0 + int i + 1 < 5)" by (auto intro: exI[of _ 4])
  have b3: "\<not> (5::int) \<le> 0 + int 3 + 1" and b4: "(5::int) \<le> 0 + int 4 + 1" by simp_all
  from t[OF l(1), THEN conjunct1] b3
  have e3: "emitted (fst (snd (run (step_live live_config remdups) (observing ''B1234XY''
       [(0.9, 0, 1::nat, True, True), (0.85, 0.2, 2, True, True),
        (0.95, 0.4, 3, True, True), (0.7, 0.6, 4, True, True), (0.6, 0.8, 5, True, True),
        (0.5, 1, 6, True, True)]) init_tracker)) ! 3) = []"
    by blast
  from t[OF l(2), THEN conjunct1] a4 b4
  have e4: "emitted (fst (snd (run (step_live live_config remdups) (observing ''B1234XY''
       [(0.9, 0, 1::nat, True, True), (0.85, 0.2, 2, True, True),
        (0.95, 0.4, 3, True, True), (0.7, 0.6, 4, True, True), (0.6, 0.8, 5, True, True),
        (0.5, 1, 6, True, True)]) init_tracker)) ! 4) \<noteq> []"
    by blast
  from t[OF l(3), THEN conjunct1] a5
  have e5: "emitted (fst (snd (run (step_live live_config remdups) (observing ''B1234XY''
       [(0.9, 0, 1::nat, True, True), (0.85, 0.2, 2, True, True),
        (0.95, 0.4, 3, True, True), (0.7, 0.6, 4, True, True), (0.6, 0.8, 5, True, True),
        (0.5, 1, 6, True, True)]) init_tracker)) ! 5) = []"
    by blast
  from t[OF l(2), THEN conjunct2, THEN conjunct2, THEN conjunct2]
  have c5: "count_of (fst (run (step_live live_config remdups) (observing ''B1234XY''
       (take (Suc 4) [(0.9, 0, 1::nat, True, True), (0.85, 0.2, 2, True, True),
        (0.95, 0.4, 3, True, True), (0.7, 0.6, 4, True, True), (0.6, 0.8, 5, True, True),
        (0.5, 1, 6, True, True)])) init_tracker)) ''B1234XY'' = STABILITY_COUNT live_config"
    unfolding S by (simp del: run.simps take_Suc_Cons)
  from set_order_remdups init_tracker_inv[of live_config] n e3 e4 e5 c5
  show ?thesis by (intro conjI)
qed

text \<open>
  C7. A run of \<open>N\<close> livestream observations of one text from a tracker that satisfies the
  invariant makes all \<open>N\<close> calls and adds \<open>N\<close> to the candidate's count; from a tracker
  without the candidate the count is \<open>N\<close>. Any single observation adds 1 to the count of the
  observed text and leaves every other count as it is, and a sweep either deletes a candidate
  or leaves it as it is.
\<close>

theorem count_equals_calls:
  assumes "set_order it" and "tracker_inv cfg s"
  shows "snd (snd (run (step_live cfg it) (observing p obs) s)) = None
       \<and> length (fst (snd (run (step_live cfg it) (observing p obs) s))) = length obs
       \<and> count_of (fst (run (step_live cfg it) (observing p obs) s)) p =
           count_of s p + int (length obs)
       \<and> (map_of (plates_seen s) p = None \<longrightarrow>
           count_of (fst (run (step_live cfg it) (observing p obs) s)) p = int (length obs))
       \<and> count_of (fst (observe_live cfg it sv tr p' cnf now crp s)) q =
           count_of s q + (if q = p' then 1 else 0)
       \<and> (map_of (plates_seen (exit_watcher_live cfg now_ts s)) q = None \<or>
          map_of (plates_seen (exit_watcher_live cfg now_ts s)) q = map_of (plates_seen s) q)"
proof -
  have a: "snd (snd (run (step_live cfg it) (observing p obs) s)) = None"
    by (rule run_live_inv(2)[OF assms])
  have b: "length (fst (snd (run (step_live cfg it) (observing p obs) s))) = length obs"
    by (simp add: run_live_inv(3)[OF assms] observing_def)
  have c: "count_of (fst (run (step_live cfg it) (observing p obs) s)) p =
           count_of s p + int (length obs)"
    using run_observing_live_state[OF assms, of p obs] by simp
  have d: "map_of (plates_seen s) p = None \<longrightarrow>
           count_of (fst (run (step_live cfg it) (observing p obs) s)) p = int (length obs)"
    unfolding c by (simp add: count_of_def)
  have e: "count_of (fst (observe_live cfg it sv tr p' cnf now crp s)) q =
           count_of s q + (if q = p' then 1 else 0)"
    by (rule observe_live_count)
  from a b c d e exit_watcher_live_lookup[of cfg now_ts s q] show ?thesis by (intro conjI)
qed

theorem count_equals_calls_witness:
  "set_order remdups \<and> tracker_inv live_config (init_tracker :: candidate tracker) \<and>
   map_of (plates_seen (init_tracker :: candidate tracker)) ''B1234XY'' = None \<and>
   count_of (fst (run (step_live live_config remdups) (observing ''B1234XY''
       [(0.9, 0, 1::nat, True, True), (0.85, 0.2, 2, True, True), (0.95, 0.4, 3, True, True)])
     init_tracker)) ''B1234XY'' = 3"
proof -
  have fresh: "map_of (plates_seen (init_tracker :: candidate tracker)) ''B1234XY'' = None"
    by (simp add: init_tracker_def)
  have n: "int (length [(0.9::real, 0::real, 1::nat, True, True), (0.85, 0.2, 2, True, True),
      (0.95, 0.4, 3, True, True)]) = 3" by simp
  note t = count_equals_calls[OF set_order_remdups init_tracker_inv, of live_config "''B1234XY''"
      "[(0.9, 0, 1::nat, True, True), (0.85, 0.2, 2, True, True), (0.95, 0.4, 3, True, True)]",
      THEN conjunct2, THEN conjunct2, THEN conjunct2, THEN conjunct1, rule_format, OF fresh,
      unfolded n]
  from set_order_remdups init_tracker_inv[of live_config] fresh t
  show ?thesis by (intro conjI)
qed

text \<open>
  C8. From a tracker without a candidate for \<open>p\<close>, after any run of observations (of any
  texts) the stored confidence of \<open>p\<close> is the maximum of the detector confidences of the
  observations of \<open>p\<close> in the run (and there is no candidate if there was none), in the
  livestream and in the upload variant, and an event for \<open>p\<close> emitted at step \<open>j\<close> carries the
  maximum over the observations of \<open>p\<close> up to and including that step. A single observation
  of \<open>p'\<close> sets the stored confidence of \<open>p'\<close> to the maximum of the old one and the new
  detector confidence and leaves the stored confidence of every other text as it is; so it
  never lowers one.
\<close>

theorem confidence_running_max:
  assumes "set_order it" and "tracker_inv cfg s" and "tracker_inv cfg u"
    and "list_all is_observe ins"
    and "map_of (plates_seen s) p = None" and "map_of (plates_seen u) p = None"
  shows "conf_of (fst (run (step_live cfg it) ins s)) p =
           (if seen_confs p ins = [] then None else Some (Max (set (seen_confs p ins))))
       \<and> conf_of (fst (run (step_upload cfg it) ins u)) p =
           (if seen_confs p ins = [] then None else Some (Max (set (seen_confs p ins))))
       \<and> (\<forall>j<length ins.
            \<forall>pl \<in> set (emitted (fst (snd (run (step_live cfg it) ins s)) ! j)).
              plate pl = p \<longrightarrow> confidence pl = Max (set (seen_confs p (take (Suc j) ins))))
       \<and> (\<forall>j<length ins.
            \<forall>pl \<in> set (emitted (fst (snd (run (step_upload cfg it) ins u)) ! j)).
              plate pl = p \<longrightarrow> confidence pl = Max (set (seen_confs p (take (Suc j) ins))))
       \<and> conf_of (fst (observe_live cfg it sv tr p' cnf now crp s)) q =
           (if q = p' then Some (case conf_of s p' of None \<Rightarrow> cnf | Some c \<Rightarrow> max c cnf)
            else conf_of s q)
       \<and> conf_of (fst (observe_upload cfg it tr p' cnf now crp u)) q =
           (if q = p' then Some (case conf_of u p' of None \<Rightarrow> cnf | Some c \<Rightarrow> max c cnf)
            else conf_of u q)
       \<and> (\<forall>c. conf_of s q = Some c \<longrightarrow>
            (\<exists>c'. conf_of (fst (observe_live cfg it sv tr p' cnf now crp s)) q = Some c' \<and> c \<le> c'))
       \<and> (\<forall>c. conf_of u q = Some c \<longrightarrow>
            (\<exists>c'. conf_of (fst (observe_upload cfg it tr p' cnf now crp u)) q = Some c' \<and> c \<le> c'))
       \<and> conf_of (fst (run (step_live cfg it) (observing p obs) s)) p =
           (if obs = [] then None else Some (Max (set (map fst obs))))
       \<and> conf_of (fst (run (step_upload cfg it) (observing p obs) u)) p =
           (if obs = [] then None else Some (Max (set (map fst obs))))"
proof -
  from assms(5) have fs: "conf_of s p = None" by (simp add: conf_of_def)
  from assms(6) have fu: "conf_of u p = None" by (simp add: conf_of_def)
  have a: "conf_of (fst (run (step_live cfg it) ins s)) p =
           (if seen_confs p ins = [] then None else Some (Max (set (seen_confs p ins))))"
    by (simp add: run_live_conf_mixed[OF assms(1,2,4)] fs)
  have b: "conf_of (fst (run (step_upload cfg it) ins u)) p =
           (if seen_confs p ins = [] then None else Some (Max (set (seen_confs p ins))))"
    by (simp add: run_upload_conf_mixed[OF assms(1,3,4)] fu)
  have c: "\<forall>j<length ins.
            \<forall>pl \<in> set (emitted (fst (snd (run (step_live cfg it) ins s)) ! j)).
              plate pl = p \<longrightarrow> confidence pl = Max (set (seen_confs p (take (Suc j) ins)))"
  proof (intro allI impI ballI)
    fix j pl
    assume j: "j < length ins"
      and pl: "pl \<in> set (emitted (fst (snd (run (step_live cfg it) ins s)) ! j))"
      and p: "plate pl = p"
    from assms(4) have obs: "list_all is_observe (take (Suc j) ins)"
      by (auto simp: list_all_iff dest: in_set_takeD)
    from run_live_payload_mixed[OF assms(1,2,4) j pl] p
    have "Some (confidence pl) = conf_of (fst (run (step_live cfg it) (take (Suc j) ins) s)) p"
      and ne: "seen_confs p (take (Suc j) ins) \<noteq> []" by simp_all
    then show "confidence pl = Max (set (seen_confs p (take (Suc j) ins)))"
      by (simp add: run_live_conf_mixed[OF assms(1,2) obs] fs)
  qed
  have d: "\<forall>j<length ins.
            \<forall>pl \<in> set (emitted (fst (snd (run (step_upload cfg it) ins u)) ! j)).
              plate pl = p \<longrightarrow> confidence pl = Max (set (seen_confs p (take (Suc j) ins)))"
  proof (intro allI impI ballI)
    fix j pl
    assume j: "j < length ins"
      and pl: "pl \<in> set (emitted (fst (snd (run (step_upload cfg it) ins u)) ! j))"
      and p: "plate pl = p"
    from assms(4) have obs: "list_all is_observe (take (Suc j) ins)"
      by (auto simp: list_all_iff dest: in_set_takeD)
    from run_upload_payload_mixed[OF assms(1,3,4) j pl] p
    have "Some (confidence pl) = conf_of (fst (run (step_upload cfg it) (take (Suc j) ins) u)) p"
      and ne: "seen_confs p (take (Suc j) ins) \<noteq> []" by simp_all
    then show "confidence pl = Max (set (seen_confs p (take (Suc j) ins)))"
      by (simp add: run_upload_conf_mixed[OF assms(1,3) obs] fu)
  qed
  have e: "conf_of (fst (observe_live cfg it sv tr p' cnf now crp s)) q =
           (if q = p' then Some (case conf_of s p' of None \<Rightarrow> cnf | Some c \<Rightarrow> max c cnf)
            else conf_of s q)"
    by (rule observe_live_conf)
  have f: "conf_of (fst (observe_upload cfg it tr p' cnf now crp u)) q =
           (if q = p' then Some (case conf_of u p' of None \<Rightarrow> cnf | Some c \<Rightarrow> max c cnf)
            else conf_of u q)"
    by (rule observe_upload_conf)
  have g: "\<forall>c. conf_of s q = Some c \<longrightarrow>
            (\<exists>c'. conf_of (fst (observe_live cfg it sv tr p' cnf now crp s)) q = Some c' \<and> c \<le> c')"
    by (intro allI impI) (rule observe_live_conf_mono)
  have h: "\<forall>c. conf_of u q = Some c \<longrightarrow>
            (\<exists>c'. conf_of (fst (observe_upload cfg it tr p' cnf now crp u)) q = Some c' \<and> c \<le> c')"
    by (intro allI impI) (rule observe_upload_conf_mono)
  have i: "conf_of (fst (run (step_live cfg it) (observing p obs) s)) p =
           (if obs = [] then None else Some (Max (set (map fst obs))))"
    by (simp add: run_observing_live_conf[OF assms(1,2)] fs)
  have j: "conf_of (fst (run (step_upload cfg it) (observing p obs) u)) p =
           (if obs = [] then None else Some (Max (set (map fst obs))))"
    by (simp add: run_observing_upload_conf[OF assms(1,3)] fu)
  from a b c d e f g h i j show ?thesis by (intro conjI)
qed

theorem confidence_running_max_witness:
  "set_order remdups \<and> tracker_inv live_config (init_tracker :: candidate tracker) \<and>
   tracker_inv live_config (init_tracker :: nat candidate_crop tracker) \<and>
   list_all is_observe
     [Observe ''AAAA1'' 0.5 0 (1::nat) True True, Observe ''BBBB2'' 0.9375 1 2 True True,
      Observe ''AAAA1'' 0.75 2 3 True True, Observe ''AAAA1'' 0.625 3 4 True True,
      Observe ''AAAA1'' 0.875 4 5 True True, Observe ''BBBB2'' 0.25 5 6 True True,
      Observe ''AAAA1'' 0.8125 6 7 True True] \<and>
   map_of (plates_seen (init_tracker :: candidate tracker)) ''AAAA1'' = None \<and>
   map_of (plates_seen (init_tracker :: nat candidate_crop tracker)) ''AAAA1'' = None \<and>
   conf_of (fst (run (step_live live_config remdups)
     [Observe ''AAAA1'' 0.5 0 (1::nat) True True, Observe ''BBBB2'' 0.9375 1 2 True True,
      Observe ''AAAA1'' 0.75 2 3 True True, Observe ''AAAA1'' 0.625 3 4 True True,
      Observe ''AAAA1'' 0.875 4 5 True True, Observe ''BBBB2'' 0.25 5 6 True True,
      Observe ''AAAA1'' 0.8125 6 7 True True] init_tracker)) ''AAAA1'' = Some 0.875 \<and>
   map plate (emitted (fst (snd (run (step_upload live_config remdups)
     [Observe ''AAAA1'' 0.5 0 (1::nat) True True, Observe ''BBBB2'' 0.9375 1 2 True True,
      Observe ''AAAA1'' 0.75 2 3 True True, Observe ''AAAA1'' 0.625 3 4 True True,
      Observe ''AAAA1'' 0.875 4 5 True True, Observe ''BBBB2'' 0.25 5 6 True True,
      Observe ''AAAA1'' 0.8125 6 7 True True] init_tracker)) ! 6)) = [''AAAA1''] \<and>
   map confidence (emitted (fst (snd (run (step_upload live_config remdups)
     [Observe ''AAAA1'' 0.5 0 (1::nat) True True, Observe ''BBBB2'' 0.9375 1 2 True True,
      Observe ''AAAA1'' 0.75 2 3 True True, Observe ''AAAA1'' 0.625 3 4 True True,
      Observe ''AAAA1'' 0.875 4 5 True True, Observe ''BBBB2'' 0.25 5 6 True True,
      Observe ''AAAA1'' 0.8125 6 7 True True] init_tracker)) ! 6)) = [0.875]"
proof -
  let ?ins = "[Observe ''AAAA1'' 0.5 0 (1::nat) True True, Observe ''BBBB2'' 0.9375 1 2 True True,
      Observe ''AAAA1'' 0.75 2 3 True True, Observe ''AAAA1'' 0.625 3 4 True True,
      Observe ''AAAA1'' 0.875 4 5 True True, Observe ''BBBB2'' 0.25 5 6 True True,
      Observe ''AAAA1'' 0.8125 6 7 True True]"
  let ?e = "emitted (fst (snd (run (step_upload live_config remdups) ?ins init_tracker)) ! 6)"
  have o: "list_all is_observe ?ins" by simp
  have f1: "map_of (plates_seen (init_tracker :: candidate tracker)) ''AAAA1'' = None"
    by (simp add: init_tracker_def)
  have f2: "map_of (plates_seen (init_tracker :: nat candidate_crop tracker)) ''AAAA1'' = None"
    by (simp add: init_tracker_def)
  have sc: "seen_confs ''AAAA1'' ?ins = [0.5, 0.75, 0.625, 0.875, 0.8125]"
    "seen_confs ''AAAA1'' (take (Suc 6) ?ins) = [0.5, 0.75, 0.625, 0.875, 0.8125]"
    by simp_all
  have m: "Max (set [0.5, 0.75, 0.625, 0.875, 0.8125 :: real]) = 0.875" by simp
  note t = confidence_running_max[OF set_order_remdups init_tracker_inv[of live_config]
      init_tracker_inv[of live_config] o f1 f2]
  from t[THEN conjunct1] have a: "conf_of (fst (run (step_live live_config remdups) ?ins
      init_tracker)) ''AAAA1'' = Some 0.875"
    unfolding sc m by simp
  have pe: "map plate ?e = [''AAAA1'']" by (simp add: eval_defs)
  then obtain pl where e: "?e = [pl]" and p: "plate pl = ''AAAA1''" by (cases ?e) auto
  have l: "(6::nat) < length ?ins" by simp
  from t[THEN conjunct2, THEN conjunct2, THEN conjunct2, THEN conjunct1, rule_format, OF l, of pl]
    e p
  have "confidence pl = 0.875" unfolding sc m by simp
  with e have b: "map confidence ?e = [0.875]" by simp
  from set_order_remdups init_tracker_inv[of live_config] init_tracker_inv[of live_config]
    o f1 f2 a pe b
  show ?thesis by (intro conjI)
qed

text \<open>
  C9. In \<^verbatim>\<open>app_trial_livestream.py\<close> (threshold 3) the third observation of \<open>B1234XY\<close>, made
  while the transport fails: the text has been added to the confirmed set and the emitter has
  been called once, and the exception of the transport leaves the observation step and ends
  the run, so the fourth observation is never made.
\<close>

theorem publish_event_trial_raises:
  "run (step_trial trial_config remdups)
     (observing ''B1234XY'' [(0.9, 0, 1::nat, True, True), (0.85, 0.2, 2, True, True),
        (0.95, 0.4, 3, True, False), (0.8, 0.6, 4, True, True)]) init_tracker =
   (\<lparr>plates_seen = [(''B1234XY'', \<lparr>count = 3, last_seen = 0.4, conf = 0.95,
         texts = [''B1234XY'', ''B1234XY'', ''B1234XY'']\<rparr>)],
      confirmed_plates = {''B1234XY''}, recorded_plates = {}\<rparr>,
    [[], [],
     [ConfirmedAdd ''B1234XY'',
      Emit \<lparr>plate = ''B1234XY'', event = ''entry'', confidence = 0.95, image = 3\<rparr>
        (Inl PublishError)]],
    Some PublishError)"
  by (simp add: eval_defs)

text \<open>
  C10, as stated, fails: on the fifth observation of \<open>B1234XY\<close> in the livestream variant the
  debug image is saved and the emitter is called between taking the lock and releasing it.
\<close>

theorem lock_held_across_emitter:
  "held_across False (fst (snd (box_live live_config remdups True True ''B1234XY'' 0.6 0.8 (5::nat)
      \<lparr>plates_seen = [(''B1234XY'', \<lparr>count = 4, last_seen = 0.6, conf = 0.95,
           texts = [''B1234XY'', ''B1234XY'', ''B1234XY'', ''B1234XY'']\<rparr>)],
       confirmed_plates = {}, recorded_plates = {}\<rparr>)))
   \<and> fst (snd (box_live live_config remdups True True ''B1234XY'' 0.6 0.8 (5::nat)
      \<lparr>plates_seen = [(''B1234XY'', \<lparr>count = 4, last_seen = 0.6, conf = 0.95,
           texts = [''B1234XY'', ''B1234XY'', ''B1234XY'', ''B1234XY'']\<rparr>)],
       confirmed_plates = {}, recorded_plates = {}\<rparr>)) =
     [RunOcr, Acquire, ConfirmedAdd ''B1234XY'', SaveDebug ''B1234XY'',
      Emit \<lparr>plate = ''B1234XY'', event = ''entry'', confidence = 0.95, image = 5\<rparr> (Inr Published),
      Release, Draw]"
  by (simp add: box_live_def eval_defs)

text \<open>
  C10, amended. For one detected box, in the livestream and in the upload variant: the
  recogniser is called once, before the lock is taken; an external call is made while the lock
  is held exactly when the step emits a confirmation event (then the debug image save and the
  emitter call are inside the locked block). A livestream sweep pass only takes and releases
  the lock around its in-memory update. An upload sweep pass writes, while it holds the lock,
  one console line for each expired plate that it removes from the confirmed set, and makes no
  other external call; so it holds the lock across an external call exactly when some expired
  plate is confirmed.
\<close>

theorem lock_scope:
  "(held_across False (fst (snd (box_live cfg it sv tr p cnf now crp s))) \<longleftrightarrow>
      emitted (fst (snd (box_live cfg it sv tr p cnf now crp s))) \<noteq> [])
   \<and> (held_across False (fst (snd (box_upload cfg it tr p cnf now crp u))) \<longleftrightarrow>
      emitted (fst (snd (box_upload cfg it tr p cnf now crp u))) \<noteq> [])
   \<and> (\<exists>rest. fst (snd (box_live cfg it sv tr p cnf now crp s)) = RunOcr # rest \<and> RunOcr \<notin> set rest)
   \<and> (\<exists>rest. fst (snd (box_upload cfg it tr p cnf now crp u)) = RunOcr # rest \<and> RunOcr \<notin> set rest)
   \<and> (snd (watcher_pass_live cfg now_ts s) :: 'img action list) = [Acquire, Release, Sleep]
   \<and> \<not> held_across False (snd (watcher_pass_live cfg now_ts s) :: 'img action list)
   \<and> (\<exists>pids. (snd (watcher_pass_upload cfg now_ts u) :: 'img action list) =
         [Acquire] @ map LogExit pids @ [Release, Sleep] \<and>
         set pids = set (expired cfg now_ts (plates_seen u)) \<inter> confirmed_plates u)
   \<and> (held_across False (snd (watcher_pass_upload cfg now_ts u) :: 'img action list) \<longleftrightarrow>
        set (expired cfg now_ts (plates_seen u)) \<inter> confirmed_plates u \<noteq> {})"
proof -
  have a: "held_across False (fst (snd (box_live cfg it sv tr p cnf now crp s))) \<longleftrightarrow>
      emitted (fst (snd (box_live cfg it sv tr p cnf now crp s))) \<noteq> []"
    using observe_live_acts[of cfg it sv tr p cnf now crp s]
    unfolding box_live_trace by (cases "length p < 4") auto
  have b: "held_across False (fst (snd (box_upload cfg it tr p cnf now crp u))) \<longleftrightarrow>
      emitted (fst (snd (box_upload cfg it tr p cnf now crp u))) \<noteq> []"
    using observe_upload_acts[of cfg it tr p cnf now crp u]
    unfolding box_upload_trace by (cases "length p < 4") auto
  have c: "\<exists>rest. fst (snd (box_live cfg it sv tr p cnf now crp s)) = RunOcr # rest \<and> RunOcr \<notin> set rest"
    using observe_live_acts[of cfg it sv tr p cnf now crp s]
    unfolding box_live_trace by (cases "length p < 4") auto
  have d: "\<exists>rest. fst (snd (box_upload cfg it tr p cnf now crp u)) = RunOcr # rest \<and> RunOcr \<notin> set rest"
    using observe_upload_acts[of cfg it tr p cnf now crp u]
    unfolding box_upload_trace by (cases "length p < 4") auto
  have e: "(snd (watcher_pass_live cfg now_ts s) :: 'img action list) = [Acquire, Release, Sleep]"
    by (simp add: watcher_pass_live_def)
  have e': "\<not> held_across False (snd (watcher_pass_live cfg now_ts s) :: 'img action list)"
    by (simp add: watcher_pass_live_def)
  obtain pids where pids: "(exit_log_upload (expired cfg now_ts (plates_seen u)) u :: 'img action list)
      = map LogExit pids"
    and sp: "set pids = set (expired cfg now_ts (plates_seen u)) \<inter> confirmed_plates u"
    using exit_log_upload_shape[of "expired cfg now_ts (plates_seen u)" u] by blast
  have f: "\<exists>pids. (snd (watcher_pass_upload cfg now_ts u) :: 'img action list) =
         [Acquire] @ map LogExit pids @ [Release, Sleep] \<and>
         set pids = set (expired cfg now_ts (plates_seen u)) \<inter> confirmed_plates u"
    using pids sp by (auto simp: watcher_pass_upload_def)
  have g: "held_across False (snd (watcher_pass_upload cfg now_ts u) :: 'img action list) \<longleftrightarrow>
        set (expired cfg now_ts (plates_seen u)) \<inter> confirmed_plates u \<noteq> {}"
    unfolding watcher_pass_upload_def snd_conv pids sp[symmetric]
    by (simp add: held_across_log)
  from a b c d e e' f g show ?thesis by (intro conjI)
qed

end
